theory Spec2Isabelle
  imports Complex_Main "HOL-Library.Sublist"
begin

section \<open>Data model\<close>

text \<open>
  Python strings are sequences of Unicode code points: \<open>len\<close>, \<open>==\<close>, \<open>in\<close>,
  \<open>find\<close> and \<open>join\<close> all work on code points, so a string is a list of code point
  numbers (a katakana letter is one element). Python floats are only stored and copied by
  the functions below, never computed with, and are values of type \<open>real\<close>.
\<close>

type_synonym pystr = "nat list"

text \<open>
  The AudioQuery of the engine is a dict of dicts and lists. A key that the code reads
  with \<open>.get(key, default)\<close> is a field holding the default when the key is absent.
\<close>

record mora =
  mora_text :: pystr
  consonant :: "pystr option"
  consonant_length :: "real option"
  vowel :: pystr
  vowel_length :: real
  pitch :: real

record accent_phrase =
  moras :: "mora list"
  accent :: int
  pause_mora :: "mora option"
  is_interrogative :: bool

record audio_query =
  accent_phrases :: "accent_phrase list"
  speedScale :: real
  pitchScale :: real
  intonationScale :: real
  volumeScale :: real
  prePhonemeLength :: real
  postPhonemeLength :: real
  outputSamplingRate :: int
  outputStereo :: bool
  kana :: pystr

text \<open>\<open>ExtendedDictEntry\<close> (the field \<open>accent_phrases\<close>, read by no function here, is left out).\<close>

record entry =
  word :: pystr
  pronunciation :: pystr
  accent_type :: int
  mora_count :: "int option"
  pitch_values :: "real list option"
  length_values :: "real list option"
  speaker_id :: "int option"

text \<open>
  The constraints of the pydantic model \<open>ExtendedDictEntry\<close>
  (\<open>models/extended_dict.py\<close>): \<open>word\<close> and \<open>pronunciation\<close> have \<open>min_length=1\<close>.
\<close>

definition valid_entry :: "entry \<Rightarrow> bool" where
  "valid_entry e = (word e \<noteq> [] \<and> pronunciation e \<noteq> [])"

text \<open>The dataclass \<open>MatchResult\<close>; its three index fields are Python ints.\<close>

datatype match_result = MatchResult
  (entry_of: entry) (accent_phrase_index: int) (mora_start_index: int) (mora_end_index: int)

section \<open>String primitives\<close>

text \<open>
  \<open>s.find(sub, start)\<close> for \<open>start \<ge> 0\<close>: the lowest index \<open>i \<ge> start\<close> with
  \<open>s[i:i+len(sub)] == sub\<close>; \<open>None\<close> stands for Python's \<open>-1\<close>.
\<close>

function str_find :: "pystr \<Rightarrow> pystr \<Rightarrow> nat \<Rightarrow> nat option" where
  "str_find s sub start =
     (if length s < start + length sub then None
      else if take (length sub) (drop start s) = sub then Some start
      else str_find s sub (Suc start))"
  by pat_completeness auto
termination
  by (relation "measure (\<lambda>(s, sub, start). Suc (length s) - start)") auto

declare str_find.simps [simp del]

lemma str_find_bounds:
  "str_find s sub start = Some pos \<Longrightarrow> start \<le> pos \<and> pos + length sub \<le> length s"
proof (induction s sub start rule: str_find.induct)
  case (1 s sub start)
  show ?case
  proof (cases "length s < start + length sub")
    case True
    with "1.prems" show ?thesis by (simp add: str_find.simps [of s sub start])
  next
    case False
    note in_range = this
    show ?thesis
    proof (cases "take (length sub) (drop start s) = sub")
      case True
      with in_range "1.prems" show ?thesis by (simp add: str_find.simps [of s sub start])
    next
      case False
      with in_range "1.prems" have "str_find s sub (Suc start) = Some pos"
        by (simp add: str_find.simps [of s sub start])
      with "1.IH" in_range False show ?thesis by fastforce
    qed
  qed
qed

text \<open>\<open>sub in s\<close> on strings.\<close>

definition str_contains :: "pystr \<Rightarrow> pystr \<Rightarrow> bool" where
  "str_contains sub s = (str_find s sub 0 \<noteq> None)"

text \<open>\<open>"".join(parts)\<close>.\<close>

definition join :: "pystr list \<Rightarrow> pystr" where
  "join parts = concat parts"

text \<open>The slice \<open>xs[a:b]\<close> for \<open>0 \<le> a\<close>, \<open>0 \<le> b\<close>.\<close>

definition slice :: "'a list \<Rightarrow> nat \<Rightarrow> nat \<Rightarrow> 'a list" where
  "slice xs a b = take (b - a) (drop a xs)"

section \<open>The matcher (\<open>services/matcher.py\<close>)\<close>

subsection \<open>Exact mode\<close>

text \<open>
  The dict \<open>pronunciation_to_entries\<close>, filled entry by entry: a pronunciation not yet a
  key gets the empty list first, then the entry is appended to the list under its key.
\<close>

fun build_index :: "entry list \<Rightarrow> (pystr \<rightharpoonup> entry list) \<Rightarrow> (pystr \<rightharpoonup> entry list)" where
  "build_index [] m = m"
| "build_index (e # es) m =
     (let p = pronunciation e;
          m1 = (if p \<notin> dom m then m(p \<mapsto> []) else m)
      in build_index es (m1(p \<mapsto> the (m1 p) @ [e])))"

text \<open>The body of the loop over the accent phrases, for one phrase.\<close>

definition exact_phrase_matches ::
  "(pystr \<rightharpoonup> entry list) \<Rightarrow> nat \<Rightarrow> accent_phrase \<Rightarrow> match_result list" where
  "exact_phrase_matches pronunciation_to_entries phrase_index ap =
     (let ms = moras ap in
      if ms = [] then []
      else
        let phrase_pronunciation = join (map mora_text ms) in
        (case pronunciation_to_entries phrase_pronunciation of
           None \<Rightarrow> []
         | Some es \<Rightarrow>
             map (\<lambda>e. MatchResult e (int phrase_index) 0 (int (length ms))) es))"

definition find_matches :: "audio_query \<Rightarrow> entry list \<Rightarrow> match_result list" where
  "find_matches q entries =
     (if entries = [] then []
      else
        let aps = accent_phrases q in
        if aps = [] then []
        else
          let pronunciation_to_entries = build_index entries Map.empty in
          concat (map (\<lambda>(phrase_index, ap).
                         exact_phrase_matches pronunciation_to_entries phrase_index ap)
                      (enumerate 0 aps)))"

subsection \<open>Partial mode with the text filter\<close>

text \<open>
  The first inner loop: the index of the first unit whose starting character offset is
  \<open>pos\<close>. When no unit starts at \<open>pos\<close> the loop ends without a break and
  \<open>mora_start\<close> keeps its initial value 0.
\<close>

fun find_mora_start :: "pystr list \<Rightarrow> nat \<Rightarrow> nat \<Rightarrow> nat \<Rightarrow> nat" where
  "find_mora_start [] pos i char_count = 0"
| "find_mora_start (t # ts) pos i char_count =
     (if char_count = pos then i
      else find_mora_start ts pos (Suc i) (char_count + length t))"

text \<open>
  The second inner loop, over \<open>range(mora_start, len(mora_texts))\<close>: the first argument
  is the list of the texts from \<open>mora_start\<close> on, \<open>i\<close> the running index.
\<close>

fun find_mora_end :: "pystr list \<Rightarrow> nat \<Rightarrow> nat \<Rightarrow> nat \<Rightarrow> nat \<Rightarrow> nat" where
  "find_mora_end [] i match_char_count plen mora_end = mora_end"
| "find_mora_end (t # ts) i match_char_count plen mora_end =
     (if plen \<le> match_char_count + length t then Suc i
      else find_mora_end ts (Suc i) (match_char_count + length t) plen (Suc i))"

text \<open>
  The \<open>while True\<close> loop of one entry over one phrase, returning the unit ranges it
  appends in order (\<open>pron\<close> is the pronunciation of the entry). The loop is entered
  only with a non-empty pronunciation (the guard \<open>if not pronunciation: continue\<close>
  stands right before it); the guard is the first test here, which makes the recursion
  terminate on every input.
\<close>

function scan_phrase :: "pystr list \<Rightarrow> pystr \<Rightarrow> pystr \<Rightarrow> nat \<Rightarrow> (nat \<times> nat) list" where
  "scan_phrase mora_texts phrase_pronunciation pron search_start =
     (if pron = [] then []
      else
        (case str_find phrase_pronunciation pron search_start of
           None \<Rightarrow> []
         | Some pos \<Rightarrow>
             (let mora_start = find_mora_start mora_texts pos 0 0;
                  mora_end = find_mora_end (drop mora_start mora_texts) mora_start 0
                               (length pron) mora_start;
                  matched_pronunciation = join (slice mora_texts mora_start mora_end)
              in (if matched_pronunciation = pron
                  then [(mora_start, mora_end)] else [])
                 @ scan_phrase mora_texts phrase_pronunciation pron
                     (pos + length pron))))"
  by pat_completeness auto
termination
proof (relation "measure (\<lambda>(mora_texts, phrase_pronunciation, pron, search_start).
                            Suc (length phrase_pronunciation) - search_start)")
  show "wf (measure (\<lambda>(mora_texts, phrase_pronunciation, pron, search_start).
                            Suc (length phrase_pronunciation) - search_start))"
    by simp
next
  fix mora_texts :: "pystr list" and phrase_pronunciation pron :: pystr
    and search_start pos :: nat
  assume nonempty: "pron \<noteq> []"
    and found: "str_find phrase_pronunciation pron search_start = Some pos"
  from str_find_bounds [OF found] nonempty
  have "search_start < pos + length pron"
    and "pos + length pron \<le> length phrase_pronunciation"
    by (cases pron; simp)+
  then show "((mora_texts, phrase_pronunciation, pron, pos + length pron),
              (mora_texts, phrase_pronunciation, pron, search_start))
             \<in> measure (\<lambda>(mora_texts, phrase_pronunciation, pron, search_start).
                            Suc (length phrase_pronunciation) - search_start)"
    by simp
qed

declare scan_phrase.simps [simp del]

definition entry_matches :: "pystr list \<Rightarrow> pystr \<Rightarrow> nat \<Rightarrow> entry \<Rightarrow> match_result list" where
  "entry_matches mora_texts phrase_pronunciation phrase_index e =
     map (\<lambda>(mora_start, mora_end).
            MatchResult e (int phrase_index) (int mora_start) (int mora_end))
         (scan_phrase mora_texts phrase_pronunciation (pronunciation e) 0)"

text \<open>The body of the loop over the accent phrases, for one phrase.\<close>

definition partial_phrase_matches ::
  "entry list \<Rightarrow> nat \<Rightarrow> accent_phrase \<Rightarrow> match_result list" where
  "partial_phrase_matches filtered_entries phrase_index ap =
     (let ms = moras ap in
      if ms = [] then []
      else
        let mora_texts = map mora_text ms;
            phrase_pronunciation = join mora_texts
        in concat (map (entry_matches mora_texts phrase_pronunciation phrase_index)
                       filtered_entries))"

definition find_matches_with_text ::
  "audio_query \<Rightarrow> entry list \<Rightarrow> pystr \<Rightarrow> match_result list" where
  "find_matches_with_text q entries input_text =
     (if entries = [] \<or> input_text = [] then []
      else
        let aps = accent_phrases q in
        if aps = [] then []
        else
          let filtered_entries = filter (\<lambda>e. str_contains (word e) input_text) entries in
          if filtered_entries = [] then []
          else concat (map (\<lambda>(phrase_index, ap).
                              partial_phrase_matches filtered_entries phrase_index ap)
                           (enumerate 0 aps)))"

section \<open>The overlay engine (\<open>services/audio_query_service.py\<close>)\<close>

text \<open>
  The exceptions: the three \<open>ValueError\<close>s of the service, told apart by their message
  (\<open>Invalid accent_phrase_index\<close>, \<open>Invalid mora range\<close>, the mora count mismatch),
  Python's \<open>IndexError\<close> of an out-of-range list access, and \<open>OtherError\<close> for every
  other exception (of the file system, the JSON parser, the engine client). The
  specification calls the first two \<open>ValueError\<close>s RangeError and the third
  CountMismatch.
\<close>

datatype value_error = Invalid_accent_phrase_index | Invalid_mora_range | Mora_count_mismatch

datatype exn = ValueError value_error | IndexError | OtherError

definition RangeError :: "exn \<Rightarrow> bool" where
  "RangeError x = (x = ValueError Invalid_accent_phrase_index \<or> x = ValueError Invalid_mora_range)"

definition CountMismatch :: "exn \<Rightarrow> bool" where
  "CountMismatch x = (x = ValueError Mora_count_mismatch)"

text \<open>
  The functions of the service copy their argument and then assign into the copy, so the
  query objects live in a store: an address is an index into the list of the objects
  allocated so far, a Python variable holding a query holds its address, and allocation
  appends. A query is a tree (it comes from JSON), so an object is the value of the whole
  tree under its address.
\<close>

type_synonym addr = nat

type_synonym heap = "audio_query list"

text \<open>\<open>copy.deepcopy\<close>: a new object with the same value, at a fresh address.\<close>

definition deep_copy_query :: "heap \<Rightarrow> addr \<Rightarrow> heap \<times> addr" where
  "deep_copy_query h audio_query = (h @ [h ! audio_query], length h)"

definition get_total_mora_count :: "audio_query \<Rightarrow> nat" where
  "get_total_mora_count q = fold (\<lambda>phrase total. total + length (moras phrase)) (accent_phrases q) 0"

text \<open>
  The position that \<open>xs[i]\<close> reads or writes in a list of length \<open>n\<close>: a negative index
  counts from the end, and \<open>None\<close> is the \<open>IndexError\<close>.
\<close>

definition py_index :: "nat \<Rightarrow> int \<Rightarrow> nat option" where
  "py_index n i =
     (if 0 \<le> i \<and> i < int n then Some (nat i)
      else if i < 0 \<and> - int n \<le> i then Some (nat (int n + i))
      else None)"

text \<open>The assignment \<open>q["accent_phrases"][k]["moras"][j][field] = v\<close>, as \<open>f\<close> on the unit.\<close>

definition upd_mora :: "audio_query \<Rightarrow> nat \<Rightarrow> nat \<Rightarrow> (mora \<Rightarrow> mora) \<Rightarrow> audio_query" where
  "upd_mora q k j f =
     q\<lparr>accent_phrases :=
         (accent_phrases q)[k := (accent_phrases q ! k)
            \<lparr>moras := (moras (accent_phrases q ! k))[j := f (moras (accent_phrases q ! k) ! j)]\<rparr>]\<rparr>"

definition set_pitch :: "real \<Rightarrow> mora \<Rightarrow> mora" where
  "set_pitch v m = m\<lparr>pitch := v\<rparr>"

definition set_vowel_length :: "real \<Rightarrow> mora \<Rightarrow> mora" where
  "set_vowel_length v m = m\<lparr>vowel_length := v\<rparr>"

text \<open>
  The loop \<open>for i, v in enumerate(values): moras[mora_start_index + i][field] = v\<close> on the
  units of phrase \<open>k\<close>; it returns the object as the assignments so far left it, and the
  exception if an index was out of range.
\<close>

fun write_values ::
  "(real \<Rightarrow> mora \<Rightarrow> mora) \<Rightarrow> nat \<Rightarrow> int \<Rightarrow> nat \<Rightarrow> real list \<Rightarrow> audio_query
     \<Rightarrow> audio_query \<times> exn option" where
  "write_values upd k mora_start i [] q = (q, None)"
| "write_values upd k mora_start i (v # vs) q =
     (case py_index (length (moras (accent_phrases q ! k))) (mora_start + int i) of
        None \<Rightarrow> (q, Some IndexError)
      | Some j \<Rightarrow> write_values upd k mora_start (Suc i) vs (upd_mora q k j (upd v)))"

text \<open>
  One block \<open>if values is not None and len(values) > 0: ...\<close> of \<open>apply_partial_match\<close>:
  the length check against \<open>target_mora_count\<close>, then the loop.
\<close>

definition apply_values ::
  "(real \<Rightarrow> mora \<Rightarrow> mora) \<Rightarrow> real list option \<Rightarrow> nat \<Rightarrow> int \<Rightarrow> int \<Rightarrow> audio_query
     \<Rightarrow> audio_query \<times> exn option" where
  "apply_values upd vals k mora_start target_mora_count q =
     (case vals of
        None \<Rightarrow> (q, None)
      | Some vs \<Rightarrow>
          if vs = [] then (q, None)
          else if int (length vs) \<noteq> target_mora_count
               then (q, Some (ValueError Mora_count_mismatch))
          else write_values upd k mora_start 0 vs q)"

text \<open>
  \<open>apply_partial_match\<close>. It returns the store and either the exception or the address
  of the result; every assignment goes to the object at the address \<open>result\<close>.
\<close>

definition apply_partial_match ::
  "heap \<Rightarrow> addr \<Rightarrow> entry \<Rightarrow> int \<Rightarrow> int \<Rightarrow> int \<Rightarrow> heap \<times> (exn + addr)" where
  "apply_partial_match h audio_query e accent_phrase_idx mora_start mora_end =
     (let (h1, result) = deep_copy_query h audio_query;
          aps = accent_phrases (h1 ! result)
      in
      if int (length aps) \<le> accent_phrase_idx
      then (h1, Inl (ValueError Invalid_accent_phrase_index))
      else
        (case py_index (length aps) accent_phrase_idx of
           None \<Rightarrow> (h1, Inl IndexError)
         | Some k \<Rightarrow>
             let target_mora_count = mora_end - mora_start in
             if mora_start < 0 \<or> int (length (moras (aps ! k))) < mora_end
             then (h1, Inl (ValueError Invalid_mora_range))
             else
               (case apply_values set_pitch (pitch_values e) k mora_start target_mora_count
                       (h1 ! result) of
                  (q2, Some err) \<Rightarrow> (h1[result := q2], Inl err)
                | (q2, None) \<Rightarrow>
                    (case apply_values set_vowel_length (length_values e) k mora_start
                            target_mora_count q2 of
                       (q3, Some err) \<Rightarrow> (h1[result := q3], Inl err)
                     | (q3, None) \<Rightarrow> (h1[result := q3], Inr result)))))"

text \<open>
  The nested loops of \<open>apply_pitch_values\<close> and \<open>apply_length_values\<close>:
  \<open>for phrase in accent_phrases: for mora in moras\<close>, assigning to the unit at hand and
  carrying \<open>mora_idx\<close> and \<open>value_idx\<close>. The inner loop returns the units of the
  phrase as it leaves them, the outer loop the phrases, each with the two counters.
\<close>

fun walk_moras ::
  "(real \<Rightarrow> mora \<Rightarrow> mora) \<Rightarrow> real list \<Rightarrow> int \<Rightarrow> mora list \<Rightarrow> nat \<Rightarrow> nat
     \<Rightarrow> mora list \<times> nat \<times> nat" where
  "walk_moras upd vals start_mora_index [] mora_idx value_idx = ([], mora_idx, value_idx)"
| "walk_moras upd vals start_mora_index (m # ms) mora_idx value_idx =
     (if start_mora_index \<le> int mora_idx \<and> value_idx < length vals
      then (case walk_moras upd vals start_mora_index ms (Suc mora_idx) (Suc value_idx) of
              (ms', counters) \<Rightarrow> (upd (vals ! value_idx) m # ms', counters))
      else (case walk_moras upd vals start_mora_index ms (Suc mora_idx) value_idx of
              (ms', counters) \<Rightarrow> (m # ms', counters)))"

fun walk_phrases ::
  "(real \<Rightarrow> mora \<Rightarrow> mora) \<Rightarrow> real list \<Rightarrow> int \<Rightarrow> accent_phrase list \<Rightarrow> nat \<Rightarrow> nat
     \<Rightarrow> accent_phrase list \<times> nat \<times> nat" where
  "walk_phrases upd vals start_mora_index [] mora_idx value_idx = ([], mora_idx, value_idx)"
| "walk_phrases upd vals start_mora_index (phrase # phrases) mora_idx value_idx =
     (case walk_moras upd vals start_mora_index (moras phrase) mora_idx value_idx of
        (ms', mora_idx', value_idx') \<Rightarrow>
          (case walk_phrases upd vals start_mora_index phrases mora_idx' value_idx' of
             (phrases', counters) \<Rightarrow> (phrase\<lparr>moras := ms'\<rparr> # phrases', counters)))"

definition apply_flat_values ::
  "(real \<Rightarrow> mora \<Rightarrow> mora) \<Rightarrow> heap \<Rightarrow> addr \<Rightarrow> real list \<Rightarrow> int \<Rightarrow> heap \<times> (exn + addr)" where
  "apply_flat_values upd h audio_query vals start_mora_index =
     (if vals = [] then (let (h1, r) = deep_copy_query h audio_query in (h1, Inr r))
      else
        let (h1, modified_query) = deep_copy_query h audio_query;
            total_moras = get_total_mora_count (h1 ! modified_query);
            available_moras = int total_moras - start_mora_index
        in
        if int (length vals) \<noteq> available_moras
        then (h1, Inl (ValueError Mora_count_mismatch))
        else (h1[modified_query :=
                   (h1 ! modified_query)
                     \<lparr>accent_phrases :=
                        fst (walk_phrases upd vals start_mora_index
                               (accent_phrases (h1 ! modified_query)) 0 0)\<rparr>],
              Inr modified_query))"

text \<open>The two functions differ in the field they assign only.\<close>

definition apply_pitch_values :: "heap \<Rightarrow> addr \<Rightarrow> real list \<Rightarrow> int \<Rightarrow> heap \<times> (exn + addr)" where
  "apply_pitch_values h audio_query pitch_vals start_mora_index =
     apply_flat_values set_pitch h audio_query pitch_vals start_mora_index"

definition apply_length_values :: "heap \<Rightarrow> addr \<Rightarrow> real list \<Rightarrow> int \<Rightarrow> heap \<times> (exn + addr)" where
  "apply_length_values h audio_query length_vals start_mora_index =
     apply_flat_values set_vowel_length h audio_query length_vals start_mora_index"

section \<open>The orchestrator (\<open>routers/synthesis.py\<close>)\<close>

text \<open>
  The loop \<open>for match in matches\<close> of the three endpoints: an overlay that raises a
  \<open>ValueError\<close> is skipped and the loop goes on with \<open>modified_query\<close> as it stands;
  any other exception leaves the loop. \<open>applied_entries\<close> is the list that
  \<open>apply_dictionary\<close> keeps; the other two endpoints run the same loop without it.
\<close>

fun apply_matches ::
  "heap \<Rightarrow> addr \<Rightarrow> pystr list \<Rightarrow> match_result list \<Rightarrow> heap \<times> (exn + addr \<times> pystr list)" where
  "apply_matches h modified_query applied_entries [] = (h, Inr (modified_query, applied_entries))"
| "apply_matches h modified_query applied_entries (m # ms) =
     (case apply_partial_match h modified_query (entry_of m) (accent_phrase_index m)
             (mora_start_index m) (mora_end_index m) of
        (h', Inr q') \<Rightarrow> apply_matches h' q' (applied_entries @ [word (entry_of m)]) ms
      | (h', Inl (ValueError _)) \<Rightarrow> apply_matches h' modified_query applied_entries ms
      | (h', Inl IndexError) \<Rightarrow> (h', Inl IndexError)
      | (h', Inl OtherError) \<Rightarrow> (h', Inl OtherError))"

text \<open>
  The request of \<open>apply_dictionary\<close> carries the query as a dictionary that is not
  validated (\<open>audio_query: dict\<close>), so its two calls
  \<open>matcher.find_matches_with_text(...)\<close> and \<open>AudioQueryService.apply_partial_match(...)\<close>
  can raise on a query that is not of the shape of the records above: a unit whose text
  is not a string makes \<open>"".join(mora_texts)\<close> raise a \<open>TypeError\<close>. The outcome of such a
  call is a parameter below: a matcher call returns the matches or raises, an overlay call
  returns the address of a new object or raises.
\<close>

type_synonym matcher_call = "audio_query \<Rightarrow> entry list \<Rightarrow> pystr \<Rightarrow> exn + match_result list"

type_synonym overlay_call = "heap \<Rightarrow> addr \<Rightarrow> entry \<Rightarrow> int \<Rightarrow> int \<Rightarrow> int \<Rightarrow> heap \<times> (exn + addr)"

text \<open>The loop \<open>for match in matches\<close> of \<open>apply_dictionary\<close>, for any overlay call.\<close>

fun apply_matches_with ::
  "overlay_call \<Rightarrow> heap \<Rightarrow> addr \<Rightarrow> pystr list \<Rightarrow> match_result list \<Rightarrow>
     heap \<times> (exn + addr \<times> pystr list)" where
  "apply_matches_with overlay_call h modified_query applied_entries [] =
     (h, Inr (modified_query, applied_entries))"
| "apply_matches_with overlay_call h modified_query applied_entries (m # ms) =
     (case overlay_call h modified_query (entry_of m) (accent_phrase_index m)
             (mora_start_index m) (mora_end_index m) of
        (h', Inr q') \<Rightarrow>
          apply_matches_with overlay_call h' q' (applied_entries @ [word (entry_of m)]) ms
      | (h', Inl (ValueError _)) \<Rightarrow>
          apply_matches_with overlay_call h' modified_query applied_entries ms
      | (h', Inl IndexError) \<Rightarrow> (h', Inl IndexError)
      | (h', Inl OtherError) \<Rightarrow> (h', Inl OtherError))"

text \<open>\<open>ApplyDictionaryResponse\<close>; the query it carries is the address of the object.\<close>

record apply_dictionary_response =
  response_audio_query :: addr
  matches_found :: nat
  applied_entries :: "pystr list"

text \<open>
  The \<open>try\<close> block of \<open>apply_dictionary\<close>. \<open>load_dictionary\<close> reads a file: its outcome,
  the entries or an exception, is the argument \<open>loaded\<close>.
\<close>

definition apply_dictionary_try ::
  "(exn + entry list) \<Rightarrow> heap \<Rightarrow> addr \<Rightarrow> pystr \<Rightarrow> heap \<times> (exn + apply_dictionary_response)" where
  "apply_dictionary_try loaded h audio_query text_in =
     (case loaded of
        Inl err \<Rightarrow> (h, Inl err)
      | Inr entries \<Rightarrow>
          if entries = []
          then (h, Inr \<lparr>response_audio_query = audio_query, matches_found = 0,
                        applied_entries = []\<rparr>)
          else
            let matches = find_matches_with_text (h ! audio_query) entries text_in in
            (case apply_matches h audio_query [] matches of
               (h', Inl err) \<Rightarrow> (h', Inl err)
             | (h', Inr (modified_query, applied)) \<Rightarrow>
                 (h', Inr \<lparr>response_audio_query = modified_query,
                           matches_found = length matches,
                           applied_entries = applied\<rparr>)))"

text \<open>\<open>apply_dictionary\<close>: the \<open>try\<close> block, and the \<open>except Exception\<close> branch.\<close>

definition apply_dictionary ::
  "(exn + entry list) \<Rightarrow> heap \<Rightarrow> addr \<Rightarrow> pystr \<Rightarrow> heap \<times> apply_dictionary_response" where
  "apply_dictionary loaded h audio_query text_in =
     (case apply_dictionary_try loaded h audio_query text_in of
        (h', Inr response) \<Rightarrow> (h', response)
      | (h', Inl err) \<Rightarrow>
          (h', \<lparr>response_audio_query = audio_query, matches_found = 0,
                applied_entries = []\<rparr>))"

text \<open>
  \<open>apply_dictionary\<close> for any matcher call and any overlay call: the same \<open>try\<close> block
  and the same \<open>except Exception\<close> branch.
\<close>

definition apply_dictionary_try_with ::
  "matcher_call \<Rightarrow> overlay_call \<Rightarrow> (exn + entry list) \<Rightarrow> heap \<Rightarrow> addr \<Rightarrow> pystr \<Rightarrow>
     heap \<times> (exn + apply_dictionary_response)" where
  "apply_dictionary_try_with matcher_call overlay_call loaded h audio_query text_in =
     (case loaded of
        Inl err \<Rightarrow> (h, Inl err)
      | Inr entries \<Rightarrow>
          if entries = []
          then (h, Inr \<lparr>response_audio_query = audio_query, matches_found = 0,
                        applied_entries = []\<rparr>)
          else
            (case matcher_call (h ! audio_query) entries text_in of
               Inl err \<Rightarrow> (h, Inl err)
             | Inr matches \<Rightarrow>
                 (case apply_matches_with overlay_call h audio_query [] matches of
                    (h', Inl err) \<Rightarrow> (h', Inl err)
                  | (h', Inr (modified_query, applied)) \<Rightarrow>
                      (h', Inr \<lparr>response_audio_query = modified_query,
                                matches_found = length matches,
                                applied_entries = applied\<rparr>))))"

definition apply_dictionary_with ::
  "matcher_call \<Rightarrow> overlay_call \<Rightarrow> (exn + entry list) \<Rightarrow> heap \<Rightarrow> addr \<Rightarrow> pystr \<Rightarrow>
     heap \<times> apply_dictionary_response" where
  "apply_dictionary_with matcher_call overlay_call loaded h audio_query text_in =
     (case apply_dictionary_try_with matcher_call overlay_call loaded h audio_query text_in of
        (h', Inr response) \<Rightarrow> (h', response)
      | (h', Inl err) \<Rightarrow>
          (h', \<lparr>response_audio_query = audio_query, matches_found = 0,
                applied_entries = []\<rparr>))"

text \<open>
  The engine client: \<open>client.create_audio_query(text, speaker)\<close> and
  \<open>client.synthesis(query, speaker)\<close> are remote calls, here two functions that return
  the answer or an exception. Audio data is a list of bytes.
\<close>

type_synonym bytes = "nat list"

record voicevox_client =
  client_create_audio_query :: "pystr \<Rightarrow> int \<Rightarrow> exn + audio_query"
  client_synthesis :: "audio_query \<Rightarrow> int \<Rightarrow> exn + bytes"

text \<open>The response of \<open>/synthesize\<close>: the audio and the header \<open>X-Matches-Found\<close>.\<close>

record synthesize_response =
  content :: bytes
  x_matches_found :: nat

datatype http_exception = HTTP_503

text \<open>
  \<open>synthesize_with_extended_dict\<close>. The query of the engine is a new object, the first
  of the store of the request.
\<close>

definition synthesize_with_extended_dict ::
  "voicevox_client \<Rightarrow> (exn + entry list) \<Rightarrow> pystr \<Rightarrow> int \<Rightarrow> http_exception + synthesize_response" where
  "synthesize_with_extended_dict client loaded text_in speaker =
     (case client_create_audio_query client text_in speaker of
        Inl err \<Rightarrow> Inl HTTP_503
      | Inr q \<Rightarrow>
          (case loaded of
             Inl err \<Rightarrow> Inl HTTP_503
           | Inr entries \<Rightarrow>
               let h = [q];
                   audio_query = 0;
                   matches = find_matches_with_text (h ! audio_query) entries text_in
               in
               (case apply_matches h audio_query [] matches of
                  (h', Inl err) \<Rightarrow> Inl HTTP_503
                | (h', Inr (modified_query, applied)) \<Rightarrow>
                    (case client_synthesis client (h' ! modified_query) speaker of
                       Inl err \<Rightarrow> Inl HTTP_503
                     | Inr audio_data \<Rightarrow>
                         Inr \<lparr>content = audio_data, x_matches_found = length matches\<rparr>))))"

section \<open>Notions of the specification\<close>

text \<open>The string \<open>sub\<close> occurs in \<open>s\<close> at character offset \<open>p\<close>.\<close>

definition occurs_at :: "pystr \<Rightarrow> pystr \<Rightarrow> nat \<Rightarrow> bool" where
  "occurs_at s sub p = (p + length sub \<le> length s \<and> take (length sub) (drop p s) = sub)"

text \<open>The segment string: the concatenated unit transcriptions of a segment.\<close>

definition segment_string :: "accent_phrase \<Rightarrow> pystr" where
  "segment_string ap = concat (map mora_text (moras ap))"

text \<open>
  The non-overlapping occurrences of \<open>sub\<close> in \<open>s\<close> from left to right, in the words of
  the specification: the first occurrence at or after the cursor, then the cursor moves to
  just past it.
\<close>

function nonoverlapping_occurrences :: "pystr \<Rightarrow> pystr \<Rightarrow> nat \<Rightarrow> nat list" where
  "nonoverlapping_occurrences s sub cursor =
     (if sub = [] then []
      else (case str_find s sub cursor of
              None \<Rightarrow> []
            | Some p \<Rightarrow> p # nonoverlapping_occurrences s sub (p + length sub)))"
  by pat_completeness auto
termination
proof (relation "measure (\<lambda>(s, sub, cursor). Suc (length s) - cursor)")
  show "wf (measure (\<lambda>(s, sub, cursor). Suc (length s) - cursor))"
    by simp
next
  fix s sub :: pystr and cursor p :: nat
  assume nonempty: "sub \<noteq> []" and found: "str_find s sub cursor = Some p"
  from str_find_bounds [OF found] nonempty
  have "cursor < p + length sub" and "p + length sub \<le> length s"
    by (cases sub; simp)+
  then show "((s, sub, p + length sub), (s, sub, cursor))
               \<in> measure (\<lambda>(s, sub, cursor). Suc (length s) - cursor)"
    by simp
qed
declare nonoverlapping_occurrences.simps [simp del]

text \<open>
  A well-formed match of a query: a valid segment index, a unit range within the segment,
  and the unit texts over the range concatenated to the pronunciation of the entry.
\<close>

definition well_formed_match :: "audio_query \<Rightarrow> match_result \<Rightarrow> bool" where
  "well_formed_match q m =
     (0 \<le> accent_phrase_index m \<and> accent_phrase_index m < int (length (accent_phrases q)) \<and>
      0 \<le> mora_start_index m \<and> mora_start_index m \<le> mora_end_index m \<and>
      mora_end_index m \<le> int (length (moras (accent_phrases q ! nat (accent_phrase_index m)))) \<and>
      concat (map mora_text
                (slice (moras (accent_phrases q ! nat (accent_phrase_index m)))
                       (nat (mora_start_index m)) (nat (mora_end_index m)))) =
        pronunciation (entry_of m))"

text \<open>An override list that is absent or empty overrides nothing.\<close>

definition values_of :: "real list option \<Rightarrow> real list" where
  "values_of vals = (case vals of None \<Rightarrow> [] | Some vs \<Rightarrow> vs)"

text \<open>The segment that index \<open>i\<close> selects among \<open>n\<close> segments when the access succeeds.\<close>

definition target_segment :: "nat \<Rightarrow> int \<Rightarrow> nat" where
  "target_segment n i = (if 0 \<le> i then nat i else nat (int n + i))"

text \<open>
  The values written into the units \<open>j0, j0 + 1, ...\<close> of a unit list, in order, by the
  field assignment \<open>upd\<close>; the other units are kept.
\<close>

definition overlay :: "(real \<Rightarrow> mora \<Rightarrow> mora) \<Rightarrow> real list \<Rightarrow> nat \<Rightarrow> mora list \<Rightarrow> mora list" where
  "overlay upd vs j0 ms =
     map (\<lambda>(j, m). if j0 \<le> j \<and> j < j0 + length vs then upd (vs ! (j - j0)) m else m)
         (enumerate 0 ms)"

text \<open>The query with the unit list of segment \<open>k\<close> replaced.\<close>

definition set_moras :: "audio_query \<Rightarrow> nat \<Rightarrow> mora list \<Rightarrow> audio_query" where
  "set_moras q k ms =
     q\<lparr>accent_phrases := (accent_phrases q)[k := (accent_phrases q ! k)\<lparr>moras := ms\<rparr>]\<rparr>"

text \<open>The units of a query in document order.\<close>

definition flat :: "audio_query \<Rightarrow> mora list" where
  "flat q = concat (map moras (accent_phrases q))"

text \<open>
  Two queries of the same shape: the same fields outside the segment list, the same
  segment attributes, and the same number of units in each segment.
\<close>

definition same_shape :: "audio_query \<Rightarrow> audio_query \<Rightarrow> bool" where
  "same_shape q q' =
     (q'\<lparr>accent_phrases := accent_phrases q\<rparr> = q \<and>
      map (\<lambda>ap. ap\<lparr>moras := []\<rparr>) (accent_phrases q') =
        map (\<lambda>ap. ap\<lparr>moras := []\<rparr>) (accent_phrases q) \<and>
      map (\<lambda>ap. length (moras ap)) (accent_phrases q') =
        map (\<lambda>ap. length (moras ap)) (accent_phrases q))"

text \<open>
  The number of dictionary matches applied to the query in a run of the loop, in the
  words of the specification: the matches whose overlay succeeded.
\<close>

definition matches_applied :: "heap \<Rightarrow> addr \<Rightarrow> match_result list \<Rightarrow> nat" where
  "matches_applied h audio_query matches =
     (case apply_matches h audio_query [] matches of
        (h', Inr (modified_query, applied)) \<Rightarrow> length applied
      | (h', Inl err) \<Rightarrow> 0)"

text \<open>The unit texts of a query, segment by segment.\<close>

definition unit_texts :: "audio_query \<Rightarrow> pystr list list" where
  "unit_texts q = map (\<lambda>ap. map mora_text (moras ap)) (accent_phrases q)"

text \<open>
  The character offset in the segment string at which unit \<open>i\<close> starts; for \<open>i\<close> the
  number of units, the length of the segment string.
\<close>

definition unit_offset :: "pystr list \<Rightarrow> nat \<Rightarrow> nat" where
  "unit_offset texts i = length (concat (take i texts))"


text \<open>A value list fits a match: it is absent or empty, or has one value for each unit of the range.\<close>

definition fits :: "real list option \<Rightarrow> match_result \<Rightarrow> bool" where
  "fits vals m =
     (values_of vals = [] \<or>
      int (length (values_of vals)) = mora_end_index m - mora_start_index m)"

text \<open>
  A match is applicable to a query: its segment index selects a segment (from the end when
  it is negative), its unit range lies in that segment, and both value lists of its entry
  fit.
\<close>

definition applicable :: "audio_query \<Rightarrow> match_result \<Rightarrow> bool" where
  "applicable q m =
     (- int (length (accent_phrases q)) \<le> accent_phrase_index m \<and>
      accent_phrase_index m < int (length (accent_phrases q)) \<and>
      0 \<le> mora_start_index m \<and>
      mora_end_index m \<le>
        int (length (moras (accent_phrases q !
               target_segment (length (accent_phrases q)) (accent_phrase_index m)))) \<and>
      fits (pitch_values (entry_of m)) m \<and> fits (length_values (entry_of m)) m)"

text \<open>
  The overlay of a match in the words of the specification: in the segment of the match,
  unit \<open>j\<close> of the range receives the pitch value and the duration value at position \<open>j\<close>
  minus the start of the range, for each of the two lists that is not empty; everything
  else is as in the query.
\<close>

definition overlay_match :: "audio_query \<Rightarrow> match_result \<Rightarrow> audio_query" where
  "overlay_match q m =
     (let k = target_segment (length (accent_phrases q)) (accent_phrase_index m);
          s = nat (mora_start_index m);
          ps = values_of (pitch_values (entry_of m));
          ls = values_of (length_values (entry_of m))
      in q\<lparr>accent_phrases := (accent_phrases q)
             [k := (accent_phrases q ! k)
                \<lparr>moras :=
                   map (\<lambda>(j, u).
                          u\<lparr>pitch := if s \<le> j \<and> j < s + length ps then ps ! (j - s)
                                      else pitch u,
                            vowel_length := if s \<le> j \<and> j < s + length ls then ls ! (j - s)
                                             else vowel_length u\<rparr>)
                       (enumerate 0 (moras (accent_phrases q ! k)))\<rparr>]\<rparr>)"

section \<open>Example data\<close>

text \<open>
  The builders of the test suite (\<open>tests/test_matcher.py\<close>): a unit with a text, a phrase
  from a list of texts, a query from phrases, an entry from word and pronunciation.
\<close>

definition create_mora :: "pystr \<Rightarrow> mora" where
  "create_mora t = \<lparr>mora_text = t, consonant = None, consonant_length = None, vowel = [],
                    vowel_length = 1 / 10, pitch = 0\<rparr>"

definition create_accent_phrase :: "pystr list \<Rightarrow> accent_phrase" where
  "create_accent_phrase texts =
     \<lparr>moras = map create_mora texts, accent = 1, pause_mora = None, is_interrogative = False\<rparr>"

definition create_audio_query :: "accent_phrase list \<Rightarrow> audio_query" where
  "create_audio_query aps =
     \<lparr>accent_phrases = aps, speedScale = 1, pitchScale = 0, intonationScale = 1,
      volumeScale = 1, prePhonemeLength = 1 / 10, postPhonemeLength = 1 / 10,
      outputSamplingRate = 24000, outputStereo = False, kana = []\<rparr>"

definition create_entry :: "pystr \<Rightarrow> pystr \<Rightarrow> entry" where
  "create_entry w p =
     \<lparr>word = w, pronunciation = p, accent_type = 1, mora_count = None, pitch_values = None,
      length_values = None, speaker_id = None\<rparr>"

definition units :: "pystr \<Rightarrow> pystr list" where
  "units s = map (\<lambda>c. [c]) s"

text \<open>
  The strings of the examples, as code points: katakana ZU-N-DA-MO-N (U+30BA U+30F3 U+30C0
  U+30E2 U+30F3), hiragana zu-n-da-mo-n, katakana DE-SU, hiragana de-su, the three kanji
  of "sumidamon" (U+9685 U+7530 U+9580), katakana TO and hiragana to, katakana CHI-small
  YA-N.
\<close>

definition ZUNDAMON :: pystr where
  "ZUNDAMON = [12474, 12531, 12480, 12514, 12531]"

definition zundamon :: pystr where
  "zundamon = [12378, 12435, 12384, 12418, 12435]"

definition DESU :: pystr where
  "DESU = [12487, 12473]"

definition desu :: pystr where
  "desu = [12391, 12377]"

definition sumidamon_kanji :: pystr where
  "sumidamon_kanji = [38533, 30000, 38272]"



definition CHAN :: pystr where
  "CHAN = [12481, 12515, 12531]"

text \<open>
  Example data of the overlay tests: one segment of the seven units ZU-N-DA-MO-N-DE-SU,
  one segment of the five units ZU-N-DA-MO-N, and an entry with three pitch values.
\<close>

definition seven_units :: audio_query where
  "seven_units = create_audio_query [create_accent_phrase (units (ZUNDAMON @ DESU))]"

definition one_segment :: audio_query where
  "one_segment = create_audio_query [create_accent_phrase (units ZUNDAMON)]"

definition three_pitches :: entry where
  "three_pitches = (create_entry zundamon ZUNDAMON)\<lparr>pitch_values := Some [6, 61 / 10, 62 / 10]\<rparr>"











text \<open>The query of the test \<open>test_apply_pitch_across_phrases\<close>: segments of 2 and 3 units.\<close>

definition two_three :: audio_query where
  "two_three = create_audio_query
     [create_accent_phrase [[12514, 48, 48], [12514, 48, 49]],
      create_accent_phrase [[12514, 49, 48], [12514, 49, 49], [12514, 49, 50]]]"

text \<open>
  The data of the end-to-end test (\<open>tests/test_synthesis.py\<close>): the text
  ko-n-ni-chi-wa-comma followed by zu-n-da-mo-n-de-su, the three phrases KO-N-NI-CHI-WA,
  ZU-N-DA-MO-N and DE-SU of the engine's answer, the dictionary entry with five pitch
  and five length values, and an engine that answers every call.
\<close>

definition konnichiwa :: pystr where
  "konnichiwa = [12371, 12435, 12395, 12385, 12399, 12289]"

definition KONNICHIWA :: pystr where
  "KONNICHIWA = [12467, 12531, 12491, 12481, 12527]"

definition zundamon_entry :: entry where
  "zundamon_entry = (create_entry zundamon ZUNDAMON)
     \<lparr>mora_count := Some 5, pitch_values := Some [6, 61 / 10, 62 / 10, 63 / 10, 64 / 10],
      length_values := Some [15 / 100, 10 / 100, 15 / 100, 15 / 100, 12 / 100]\<rparr>"

definition mock_audio_query :: audio_query where
  "mock_audio_query = create_audio_query
     [create_accent_phrase (units KONNICHIWA), create_accent_phrase (units ZUNDAMON),
      create_accent_phrase (units DESU)]"

definition mock_client :: voicevox_client where
  "mock_client = \<lparr>client_create_audio_query = (\<lambda>t s. Inr mock_audio_query),
                   client_synthesis = (\<lambda>q s. Inr [82, 73, 70, 70])\<rparr>"

text \<open>The entry of the end-to-end test with a pitch list of one value instead of five.\<close>

definition short_pitch_entry :: entry where
  "short_pitch_entry = zundamon_entry\<lparr>pitch_values := Some [6]\<rparr>"

section \<open>Facts about the string primitives\<close>

lemma str_find_Some:
  "str_find s sub start = Some pos \<Longrightarrow>
     start \<le> pos \<and> occurs_at s sub pos \<and> (\<forall>p. start \<le> p \<and> p < pos \<longrightarrow> \<not> occurs_at s sub p)"
proof (induction s sub start rule: str_find.induct)
  case (1 s sub start)
  show ?case
  proof (cases "length s < start + length sub")
    case True
    with "1.prems" show ?thesis by (simp add: str_find.simps [of s sub start])
  next
    case False
    note in_range = this
    show ?thesis
    proof (cases "take (length sub) (drop start s) = sub")
      case True
      with in_range "1.prems" show ?thesis
        by (auto simp add: str_find.simps [of s sub start] occurs_at_def)
    next
      case False
      with in_range "1.prems" have rec: "str_find s sub (Suc start) = Some pos"
        by (simp add: str_find.simps [of s sub start])
      from "1.IH" [OF in_range False rec]
      have ih: "Suc start \<le> pos" "occurs_at s sub pos"
        "\<forall>p. Suc start \<le> p \<and> p < pos \<longrightarrow> \<not> occurs_at s sub p" by auto
      have "\<not> occurs_at s sub start" using False by (simp add: occurs_at_def)
      with ih show ?thesis
        by (metis Suc_leI Suc_leD le_neq_implies_less)
    qed
  qed
qed

lemma str_find_None:
  "str_find s sub start = None \<Longrightarrow> start \<le> p \<Longrightarrow> \<not> occurs_at s sub p"
proof (induction s sub start rule: str_find.induct)
  case (1 s sub start)
  show ?case
  proof (cases "length s < start + length sub")
    case True
    with "1.prems" show ?thesis by (simp add: occurs_at_def)
  next
    case False
    note in_range = this
    show ?thesis
    proof (cases "take (length sub) (drop start s) = sub")
      case True
      with in_range "1.prems" show ?thesis by (simp add: str_find.simps [of s sub start])
    next
      case False
      with in_range "1.prems" have rec: "str_find s sub (Suc start) = None"
        by (simp add: str_find.simps [of s sub start])
      show ?thesis
      proof (cases "p = start")
        case True
        with False show ?thesis by (simp add: occurs_at_def)
      next
        case False
        with "1.prems" have "Suc start \<le> p" by simp
        with "1.IH" [OF in_range \<open>take (length sub) (drop start s) \<noteq> sub\<close> rec]
        show ?thesis by simp
      qed
    qed
  qed
qed

lemma sublist_iff_occurs: "sublist sub s \<longleftrightarrow> (\<exists>p. occurs_at s sub p)"
proof
  assume "sublist sub s"
  then obtain ps ss where "s = ps @ sub @ ss" by (auto simp: sublist_def)
  then have "occurs_at s sub (length ps)" by (simp add: occurs_at_def)
  then show "\<exists>p. occurs_at s sub p" ..
next
  assume "\<exists>p. occurs_at s sub p"
  then obtain p where p: "p + length sub \<le> length s" "take (length sub) (drop p s) = sub"
    by (auto simp: occurs_at_def)
  have "s = take p s @ drop p s" by simp
  also have "drop p s = take (length sub) (drop p s) @ drop (length sub) (drop p s)"
    by (rule append_take_drop_id [symmetric])
  finally have "s = take p s @ sub @ drop (length sub) (drop p s)" using p(2) by simp
  then show "sublist sub s" unfolding sublist_def by blast
qed

lemma str_contains_sublist: "str_contains sub s \<longleftrightarrow> sublist sub s"
proof -
  have "str_find s sub 0 \<noteq> None \<longleftrightarrow> (\<exists>p. occurs_at s sub p)"
  proof
    assume "str_find s sub 0 \<noteq> None"
    then obtain pos where "str_find s sub 0 = Some pos" by auto
    from str_find_Some [OF this] show "\<exists>p. occurs_at s sub p" by blast
  next
    assume "\<exists>p. occurs_at s sub p"
    then obtain p where "occurs_at s sub p" ..
    then show "str_find s sub 0 \<noteq> None" using str_find_None [of s sub 0 p] by auto
  qed
  then show ?thesis by (simp add: str_contains_def sublist_iff_occurs)
qed

section \<open>Partial mode: the text filter\<close>

lemma entry_matches_entry:
  "m \<in> set (entry_matches mora_texts pp i e) \<Longrightarrow> entry_of m = e"
  by (auto simp: entry_matches_def)

lemma partial_phrase_matches_entry:
  "m \<in> set (partial_phrase_matches es i ap) \<Longrightarrow> entry_of m \<in> set es"
  by (auto simp: partial_phrase_matches_def Let_def dest: entry_matches_entry split: if_splits)

lemma find_matches_with_text_entry:
  assumes "m \<in> set (find_matches_with_text q entries input_text)"
  shows "entry_of m \<in> set entries \<and> str_contains (word (entry_of m)) input_text"
proof -
  let ?fs = "filter (\<lambda>e. str_contains (word e) input_text) entries"
  from assms obtain i ap where "m \<in> set (partial_phrase_matches ?fs i ap)"
    by (auto simp: find_matches_with_text_def Let_def split: if_splits)
  then have "entry_of m \<in> set ?fs" by (rule partial_phrase_matches_entry)
  then show ?thesis by simp
qed

lemma partial_phrase_matches_Nil [simp]: "partial_phrase_matches [] i ap = []"
  by (simp add: partial_phrase_matches_def Let_def)

lemma find_matches_with_text_filtered:
  "find_matches_with_text q entries input_text =
     find_matches_with_text q (filter (\<lambda>e. str_contains (word e) input_text) entries) input_text"
proof (cases "filter (\<lambda>e. str_contains (word e) input_text) entries = []")
  case True
  then show ?thesis by (simp add: find_matches_with_text_def Let_def)
next
  case False
  then have "entries \<noteq> []" by auto
  with False show ?thesis by (simp add: find_matches_with_text_def Let_def)
qed

text \<open>
  Claim C5. In partial mode the entries whose word is not a literal substring of the source
  text are discarded before the scan: the result is the one computed from the surviving
  entries alone, every match carries a surviving entry, and when no entry survives there
  is no match. An empty entry list and an empty source text give the empty result.
\<close>

theorem text_filter_discards:
  "find_matches_with_text q entries input_text =
     find_matches_with_text q (filter (\<lambda>e. sublist (word e) input_text) entries) input_text
   \<and> (\<forall>m \<in> set (find_matches_with_text q entries input_text).
         entry_of m \<in> set entries \<and> sublist (word (entry_of m)) input_text)
   \<and> ((\<forall>e \<in> set entries. \<not> sublist (word e) input_text) \<longrightarrow>
         find_matches_with_text q entries input_text = [])
   \<and> find_matches_with_text q [] input_text = []
   \<and> find_matches_with_text q entries [] = []"
proof (intro conjI)
  show "find_matches_with_text q entries input_text =
     find_matches_with_text q (filter (\<lambda>e. sublist (word e) input_text) entries) input_text"
    using find_matches_with_text_filtered [of q entries input_text]
    by (simp add: str_contains_sublist)
  show "\<forall>m \<in> set (find_matches_with_text q entries input_text).
         entry_of m \<in> set entries \<and> sublist (word (entry_of m)) input_text"
    using find_matches_with_text_entry [of _ q entries input_text]
    by (simp add: str_contains_sublist)
  show "(\<forall>e \<in> set entries. \<not> sublist (word e) input_text) \<longrightarrow>
         find_matches_with_text q entries input_text = []"
  proof
    assume "\<forall>e \<in> set entries. \<not> sublist (word e) input_text"
    then have "filter (\<lambda>e. str_contains (word e) input_text) entries = []"
      by (simp add: str_contains_sublist filter_empty_conv)
    then show "find_matches_with_text q entries input_text = []"
      by (simp add: find_matches_with_text_def Let_def)
  qed
  show "find_matches_with_text q [] input_text = []"
    by (simp add: find_matches_with_text_def)
  show "find_matches_with_text q entries [] = []"
    by (simp add: find_matches_with_text_def)
qed

theorem text_filter_discards_witness:
  "find_matches_with_text
     (create_audio_query [create_accent_phrase (units (ZUNDAMON @ DESU))])
     [create_entry zundamon ZUNDAMON] (sumidamon_kanji @ desu) = []"
proof -
  have no_word: "\<forall>e \<in> set [create_entry zundamon ZUNDAMON].
                   \<not> sublist (word e) (sumidamon_kanji @ desu)"
    by (simp add: str_contains_sublist [symmetric] str_contains_def str_find.simps
        create_entry_def zundamon_def sumidamon_kanji_def desu_def)
  with text_filter_discards
         [of "create_audio_query [create_accent_phrase (units (ZUNDAMON @ DESU))]"
             "[create_entry zundamon ZUNDAMON]" "sumidamon_kanji @ desu"]
  show ?thesis by blast
qed

section \<open>Exact mode\<close>

lemma build_index_lookup:
  "build_index es m p =
     (if filter (\<lambda>e. pronunciation e = p) es = [] then m p
      else Some ((case m p of None \<Rightarrow> [] | Some l \<Rightarrow> l) @ filter (\<lambda>e. pronunciation e = p) es))"
proof (induction es arbitrary: m)
  case Nil
  show ?case by simp
next
  case (Cons e es)
  show ?case
    by (simp add: Cons.IH Let_def dom_def split: option.splits)
qed

lemma build_index_empty:
  "build_index es Map.empty p =
     (if filter (\<lambda>e. pronunciation e = p) es = [] then None
      else Some (filter (\<lambda>e. pronunciation e = p) es))"
  by (simp add: build_index_lookup)

lemma exact_phrase_matches_filter:
  "exact_phrase_matches (build_index es Map.empty) i ap =
     (if moras ap = [] then []
      else map (\<lambda>e. MatchResult e (int i) 0 (int (length (moras ap))))
               (filter (\<lambda>e. pronunciation e = segment_string ap) es))"
  by (simp add: exact_phrase_matches_def Let_def build_index_empty join_def segment_string_def)

lemma find_matches_filter:
  "find_matches q es =
     concat (map (\<lambda>(i, ap).
                    if moras ap = [] then []
                    else map (\<lambda>e. MatchResult e (int i) 0 (int (length (moras ap))))
                             (filter (\<lambda>e. pronunciation e = segment_string ap) es))
                 (enumerate 0 (accent_phrases q)))"
proof (cases "es = []")
  case True
  have "concat (map (\<lambda>(i, ap).
                    if moras ap = [] then []
                    else map (\<lambda>e. MatchResult e (int i) 0 (int (length (moras ap))))
                             (filter (\<lambda>e. pronunciation e = segment_string ap) []))
                 (enumerate 0 (accent_phrases q))) = []"
    by (induction "accent_phrases q" arbitrary: q) (auto simp: split_def)
  then show ?thesis unfolding True by (simp add: find_matches_def)
next
  case False
  have body: "(\<lambda>(phrase_index, ap). exact_phrase_matches (build_index es Map.empty) phrase_index ap) =
        (\<lambda>(i, ap).
                    if moras ap = [] then []
                    else map (\<lambda>e. MatchResult e (int i) 0 (int (length (moras ap))))
                             (filter (\<lambda>e. pronunciation e = segment_string ap) es))"
    by (rule ext) (simp only: split_def exact_phrase_matches_filter)
  show ?thesis
  proof (cases "accent_phrases q = []")
    case True
    with False show ?thesis by (simp add: find_matches_def)
  next
    case nonempty: False
    have "find_matches q es =
            concat (map (\<lambda>(phrase_index, ap).
                           exact_phrase_matches (build_index es Map.empty) phrase_index ap)
                        (enumerate 0 (accent_phrases q)))"
      unfolding find_matches_def Let_def using False nonempty by (simp only: if_False)
    then show ?thesis by (simp only: body)
  qed
qed

lemma in_concat_enumerate:
  "m \<in> set (concat (map (\<lambda>(i, x). f i x) (enumerate 0 xs))) \<longleftrightarrow>
     (\<exists>i < length xs. m \<in> set (f i (xs ! i)))"
proof
  assume "m \<in> set (concat (map (\<lambda>(i, x). f i x) (enumerate 0 xs)))"
  then obtain i x where "(i, x) \<in> set (enumerate 0 xs)" "m \<in> set (f i x)"
    by auto
  then show "\<exists>i < length xs. m \<in> set (f i (xs ! i))"
    by (auto simp: in_set_enumerate_eq)
next
  assume "\<exists>i < length xs. m \<in> set (f i (xs ! i))"
  then obtain i where i: "i < length xs" "m \<in> set (f i (xs ! i))" by blast
  then have "(i, xs ! i) \<in> set (enumerate 0 xs)" by (simp add: in_set_enumerate_eq)
  with i(2) show "m \<in> set (concat (map (\<lambda>(i, x). f i x) (enumerate 0 xs)))"
    by (simp only: set_concat set_map) blast
qed


lemma find_matches_valid:
  assumes valid: "\<forall>e \<in> set entries. valid_entry e"
  shows "find_matches q entries =
           concat (map (\<lambda>(i, ap).
                          map (\<lambda>e. MatchResult e (int i) 0 (int (length (moras ap))))
                              (filter (\<lambda>e. pronunciation e = segment_string ap) entries))
                       (enumerate 0 (accent_phrases q)))"
proof -
  have guard: "(if moras ap = [] then []
           else map (\<lambda>e. MatchResult e (int i) 0 (int (length (moras ap))))
                    (filter (\<lambda>e. pronunciation e = segment_string ap) entries)) =
          map (\<lambda>e. MatchResult e (int i) 0 (int (length (moras ap))))
              (filter (\<lambda>e. pronunciation e = segment_string ap) entries)" for i ap
  proof (cases "moras ap = []")
    case True
    then have "segment_string ap = []" by (simp add: segment_string_def)
    with valid have "filter (\<lambda>e. pronunciation e = segment_string ap) entries = []"
      by (auto simp: filter_empty_conv valid_entry_def)
    with True show ?thesis by simp
  next
    case False
    then show ?thesis by simp
  qed
  show ?thesis by (simp only: find_matches_filter guard)
qed

text \<open>
  Claim C4. In exact mode the matches are, segment by segment, one match per entry whose
  pronunciation equals the segment string, with the unit range from 0 to the number of
  units of the segment; so a segment has a match if and only if some entry's pronunciation
  equals its segment string (a pronunciation that is only a prefix, suffix or infix of
  the segment string, or that properly contains it, is not equal to it). The entries
  satisfy the constraints of their model.
\<close>

theorem exact_mode_whole_segment:
  assumes valid: "\<forall>e \<in> set entries. valid_entry e"
  shows "find_matches q entries =
           concat (map (\<lambda>(i, ap).
                          map (\<lambda>e. MatchResult e (int i) 0 (int (length (moras ap))))
                              (filter (\<lambda>e. pronunciation e = segment_string ap) entries))
                       (enumerate 0 (accent_phrases q)))
         \<and> (\<forall>i < length (accent_phrases q).
               (\<exists>m \<in> set (find_matches q entries). accent_phrase_index m = int i) \<longleftrightarrow>
               (\<exists>e \<in> set entries. pronunciation e = segment_string (accent_phrases q ! i)))"
proof (intro conjI allI impI)
  show "find_matches q entries =
           concat (map (\<lambda>(i, ap).
                          map (\<lambda>e. MatchResult e (int i) 0 (int (length (moras ap))))
                              (filter (\<lambda>e. pronunciation e = segment_string ap) entries))
                       (enumerate 0 (accent_phrases q)))"
    by (rule find_matches_valid [OF valid])
next
  fix i assume i: "i < length (accent_phrases q)"
  let ?f = "\<lambda>i ap. map (\<lambda>e. MatchResult e (int i) 0 (int (length (moras ap))))
                        (filter (\<lambda>e. pronunciation e = segment_string ap) entries)"
  have mem: "m \<in> set (find_matches q entries) \<longleftrightarrow>
               (\<exists>j < length (accent_phrases q). m \<in> set (?f j (accent_phrases q ! j)))" for m
    unfolding find_matches_valid [OF valid] by (rule in_concat_enumerate)
  show "(\<exists>m \<in> set (find_matches q entries). accent_phrase_index m = int i) \<longleftrightarrow>
           (\<exists>e \<in> set entries. pronunciation e = segment_string (accent_phrases q ! i))"
  proof
    assume "\<exists>m \<in> set (find_matches q entries). accent_phrase_index m = int i"
    then obtain m where m: "m \<in> set (find_matches q entries)" "accent_phrase_index m = int i"
      by blast
    from m(1) obtain j where j: "j < length (accent_phrases q)"
      "m \<in> set (?f j (accent_phrases q ! j))" unfolding mem by blast
    from j(2) obtain e where e: "e \<in> set entries"
      "pronunciation e = segment_string (accent_phrases q ! j)"
      "m = MatchResult e (int j) 0 (int (length (moras (accent_phrases q ! j))))"
      by auto
    from m(2) e(3) have "j = i" by simp
    with e show "\<exists>e \<in> set entries. pronunciation e = segment_string (accent_phrases q ! i)"
      by blast
  next
    assume "\<exists>e \<in> set entries. pronunciation e = segment_string (accent_phrases q ! i)"
    then obtain e where e: "e \<in> set entries"
      "pronunciation e = segment_string (accent_phrases q ! i)" by blast
    let ?m = "MatchResult e (int i) 0 (int (length (moras (accent_phrases q ! i))))"
    from e have "?m \<in> set (?f i (accent_phrases q ! i))" by simp
    with i have "?m \<in> set (find_matches q entries)" unfolding mem by blast
    moreover have "accent_phrase_index ?m = int i" by simp
    ultimately show "\<exists>m \<in> set (find_matches q entries). accent_phrase_index m = int i"
      by blast
  qed
qed

theorem exact_mode_whole_segment_witness:
  "find_matches (create_audio_query [create_accent_phrase (units (ZUNDAMON @ CHAN))])
     [create_entry zundamon ZUNDAMON] = []
   \<and> find_matches (create_audio_query [create_accent_phrase (units ZUNDAMON)])
         [create_entry zundamon ZUNDAMON, create_entry ZUNDAMON ZUNDAMON] =
       [MatchResult (create_entry zundamon ZUNDAMON) 0 0 5,
        MatchResult (create_entry ZUNDAMON ZUNDAMON) 0 0 5]"
proof -
  have valid1: "\<forall>e \<in> set [create_entry zundamon ZUNDAMON]. valid_entry e"
    by (simp add: valid_entry_def create_entry_def zundamon_def ZUNDAMON_def)
  have valid2: "\<forall>e \<in> set [create_entry zundamon ZUNDAMON, create_entry ZUNDAMON ZUNDAMON].
                  valid_entry e"
    by (simp add: valid_entry_def create_entry_def zundamon_def ZUNDAMON_def)
  from exact_mode_whole_segment [OF valid1,
         of "create_audio_query [create_accent_phrase (units (ZUNDAMON @ CHAN))]"]
  have "find_matches (create_audio_query [create_accent_phrase (units (ZUNDAMON @ CHAN))])
          [create_entry zundamon ZUNDAMON] = []"
    by (simp add: segment_string_def create_mora_def create_accent_phrase_def
        create_audio_query_def create_entry_def units_def ZUNDAMON_def CHAN_def
        enumerate_eq_zip)
  moreover
  from exact_mode_whole_segment [OF valid2,
         of "create_audio_query [create_accent_phrase (units ZUNDAMON)]"]
  have "find_matches (create_audio_query [create_accent_phrase (units ZUNDAMON)])
          [create_entry zundamon ZUNDAMON, create_entry ZUNDAMON ZUNDAMON] =
        [MatchResult (create_entry zundamon ZUNDAMON) 0 0 5,
         MatchResult (create_entry ZUNDAMON ZUNDAMON) 0 0 5]"
    by (simp add: segment_string_def create_mora_def create_accent_phrase_def
        create_audio_query_def create_entry_def units_def ZUNDAMON_def zundamon_def
        enumerate_eq_zip)
  ultimately show ?thesis by simp
qed

section \<open>The overlay of one segment\<close>

lemma overlay_length [simp]: "length (overlay upd vs j0 ms) = length ms"
  by (simp add: overlay_def)

lemma overlay_nth:
  "j < length ms \<Longrightarrow>
     overlay upd vs j0 ms ! j =
       (if j0 \<le> j \<and> j < j0 + length vs then upd (vs ! (j - j0)) (ms ! j) else ms ! j)"
  by (simp add: overlay_def nth_enumerate_eq)

lemma overlay_Nil [simp]: "overlay upd [] j0 ms = ms"
  by (rule nth_equalityI) (auto simp add: overlay_nth)

lemma overlay_Cons:
  assumes "j0 < length ms"
  shows "overlay upd vs (Suc j0) (ms[j0 := upd v (ms ! j0)]) = overlay upd (v # vs) j0 ms"
proof (rule nth_equalityI)
  show "length (overlay upd vs (Suc j0) (ms[j0 := upd v (ms ! j0)])) =
        length (overlay upd (v # vs) j0 ms)" by simp
next
  fix j assume "j < length (overlay upd vs (Suc j0) (ms[j0 := upd v (ms ! j0)]))"
  then have j: "j < length ms" by simp
  show "overlay upd vs (Suc j0) (ms[j0 := upd v (ms ! j0)]) ! j = overlay upd (v # vs) j0 ms ! j"
  proof (cases "j = j0")
    case True
    with j show ?thesis by (simp add: overlay_nth)
  next
    case False
    then have "(j - j0) = Suc (j - Suc j0)" if "j0 \<le> j" using that by simp
    with False j show ?thesis by (auto simp add: overlay_nth nth_list_update)
  qed
qed

lemma set_moras_twice [simp]: "set_moras (set_moras q k a) k b = set_moras q k b"
  by (cases "k < length (accent_phrases q)") (simp_all add: set_moras_def list_update_beyond)

lemma set_moras_same:
  "k < length (accent_phrases q) \<Longrightarrow> set_moras q k (moras (accent_phrases q ! k)) = q"
  by (simp add: set_moras_def list_update_same_conv)

lemma moras_set_moras:
  "k < length (accent_phrases q) \<Longrightarrow> moras (accent_phrases (set_moras q k ms) ! k) = ms"
  by (simp add: set_moras_def)

lemma length_set_moras [simp]:
  "length (accent_phrases (set_moras q k ms)) = length (accent_phrases q)"
  by (simp add: set_moras_def)

lemma upd_mora_set_moras:
  "upd_mora q k j f =
     set_moras q k ((moras (accent_phrases q ! k))[j := f (moras (accent_phrases q ! k) ! j)])"
  by (simp add: upd_mora_def set_moras_def)

lemma py_index_nonneg:
  "0 \<le> i \<Longrightarrow> i < int n \<Longrightarrow> py_index n i = Some (nat i)"
  by (simp add: py_index_def)

lemma write_values_overlay:
  assumes "k < length (accent_phrases q)" and "0 \<le> s"
    and "nat s + i + length vs \<le> length (moras (accent_phrases q ! k))"
  shows "write_values upd k s i vs q =
           (set_moras q k (overlay upd vs (nat s + i) (moras (accent_phrases q ! k))), None)"
  using assms
proof (induction vs arbitrary: i q)
  case Nil
  then show ?case by (simp add: set_moras_same)
next
  case (Cons v vs)
  let ?ms = "moras (accent_phrases q ! k)"
  let ?j = "nat s + i"
  from Cons.prems have j: "?j < length ?ms" by simp
  with Cons.prems have idx: "py_index (length ?ms) (s + int i) = Some ?j"
    by (simp add: py_index_def nat_add_distrib)
  let ?q1 = "upd_mora q k ?j (upd v)"
  have q1: "?q1 = set_moras q k (?ms[?j := upd v (?ms ! ?j)])"
    by (rule upd_mora_set_moras)
  have k1: "k < length (accent_phrases ?q1)" using Cons.prems by (simp add: q1)
  have ms1: "moras (accent_phrases ?q1 ! k) = ?ms[?j := upd v (?ms ! ?j)]"
    using Cons.prems by (simp add: q1 moras_set_moras)
  have len1: "nat s + Suc i + length vs \<le> length (moras (accent_phrases ?q1 ! k))"
    using Cons.prems by (simp add: ms1)
  have "write_values upd k s i (v # vs) q = write_values upd k s (Suc i) vs ?q1"
    by (simp add: idx)
  also have "\<dots> = (set_moras ?q1 k (overlay upd vs (nat s + Suc i)
                        (moras (accent_phrases ?q1 ! k))), None)"
    by (rule Cons.IH [OF k1 \<open>0 \<le> s\<close> len1])
  also have "set_moras ?q1 k (overlay upd vs (nat s + Suc i) (moras (accent_phrases ?q1 ! k)))
             = set_moras q k (overlay upd (v # vs) ?j ?ms)"
    using overlay_Cons [OF j, of upd vs v] by (simp add: ms1) (simp add: q1)
  finally show ?case .
qed

lemma apply_values_valid:
  assumes "k < length (accent_phrases q)" and "0 \<le> s"
    and "t \<le> int (length (moras (accent_phrases q ! k)))"
  shows "apply_values upd vals k s (t - s) q =
           (if values_of vals \<noteq> [] \<and> int (length (values_of vals)) \<noteq> t - s
            then (q, Some (ValueError Mora_count_mismatch))
            else (set_moras q k (overlay upd (values_of vals) (nat s)
                                   (moras (accent_phrases q ! k))), None))"
proof (cases vals)
  case None
  with assms show ?thesis by (simp add: apply_values_def values_of_def set_moras_same)
next
  case (Some vs)
  show ?thesis
  proof (cases "vs = []")
    case True
    with Some assms show ?thesis by (simp add: apply_values_def values_of_def set_moras_same)
  next
    case False
    show ?thesis
    proof (cases "int (length vs) = t - s")
      case True
      with assms have "nat s + 0 + length vs \<le> length (moras (accent_phrases q ! k))" by simp
      from write_values_overlay [OF assms(1,2) this, of upd] Some False True
      show ?thesis by (simp add: apply_values_def values_of_def)
    next
      case mismatch: False
      with Some False show ?thesis by (simp add: apply_values_def values_of_def)
    qed
  qed
qed

lemma apply_partial_match_unfold:
  "apply_partial_match h a e api s t =
     (let q = h ! a; aps = accent_phrases q in
      if int (length aps) \<le> api then (h @ [q], Inl (ValueError Invalid_accent_phrase_index))
      else
        (case py_index (length aps) api of
           None \<Rightarrow> (h @ [q], Inl IndexError)
         | Some k \<Rightarrow>
             if s < 0 \<or> int (length (moras (aps ! k))) < t
             then (h @ [q], Inl (ValueError Invalid_mora_range))
             else
               (case apply_values set_pitch (pitch_values e) k s (t - s) q of
                  (q2, Some err) \<Rightarrow> (h @ [q2], Inl err)
                | (q2, None) \<Rightarrow>
                    (case apply_values set_vowel_length (length_values e) k s (t - s) q2 of
                       (q3, Some err) \<Rightarrow> (h @ [q3], Inl err)
                     | (q3, None) \<Rightarrow> (h @ [q3], Inr (length h))))))"
  by (simp add: apply_partial_match_def deep_copy_query_def Let_def
      split: option.splits prod.splits)

lemma py_index_Some:
  "py_index n i = Some k \<Longrightarrow> k < n \<and> k = target_segment n i \<and> - int n \<le> i \<and> i < int n"
  by (auto simp: py_index_def target_segment_def split: if_splits)

lemma apply_partial_match_valid:
  assumes k: "py_index (length (accent_phrases (h ! a))) api = Some k"
    and s: "0 \<le> s" and t: "t \<le> int (length (moras (accent_phrases (h ! a) ! k)))"
  shows "apply_partial_match h a e api s t =
     (if values_of (pitch_values e) \<noteq> [] \<and> int (length (values_of (pitch_values e))) \<noteq> t - s
      then (h @ [h ! a], Inl (ValueError Mora_count_mismatch))
      else if values_of (length_values e) \<noteq> [] \<and>
              int (length (values_of (length_values e))) \<noteq> t - s
      then (h @ [set_moras (h ! a) k (overlay set_pitch (values_of (pitch_values e)) (nat s)
                   (moras (accent_phrases (h ! a) ! k)))],
            Inl (ValueError Mora_count_mismatch))
      else (h @ [set_moras (h ! a) k
                   (overlay set_vowel_length (values_of (length_values e)) (nat s)
                      (overlay set_pitch (values_of (pitch_values e)) (nat s)
                         (moras (accent_phrases (h ! a) ! k))))],
            Inr (length h)))"
proof -
  let ?q = "h ! a"
  let ?ms = "moras (accent_phrases ?q ! k)"
  let ?q2 = "set_moras ?q k (overlay set_pitch (values_of (pitch_values e)) (nat s) ?ms)"
  from py_index_Some [OF k] have kn: "k < length (accent_phrases ?q)"
    and api: "api < int (length (accent_phrases ?q))" by simp_all
  have pitch: "apply_values set_pitch (pitch_values e) k s (t - s) ?q =
      (if values_of (pitch_values e) \<noteq> [] \<and> int (length (values_of (pitch_values e))) \<noteq> t - s
       then (?q, Some (ValueError Mora_count_mismatch)) else (?q2, None))"
    by (rule apply_values_valid [OF kn s t])
  have kn2: "k < length (accent_phrases ?q2)" using kn by simp
  have ms2: "moras (accent_phrases ?q2 ! k) =
               overlay set_pitch (values_of (pitch_values e)) (nat s) ?ms"
    using kn by (simp add: moras_set_moras)
  have t2: "t \<le> int (length (moras (accent_phrases ?q2 ! k)))" using t by (simp add: ms2)
  have len: "apply_values set_vowel_length (length_values e) k s (t - s) ?q2 =
      (if values_of (length_values e) \<noteq> [] \<and> int (length (values_of (length_values e))) \<noteq> t - s
       then (?q2, Some (ValueError Mora_count_mismatch))
       else (set_moras ?q k (overlay set_vowel_length (values_of (length_values e)) (nat s)
               (overlay set_pitch (values_of (pitch_values e)) (nat s) ?ms)), None))"
    using apply_values_valid [OF kn2 s t2, of set_vowel_length "length_values e"]
    by (simp add: ms2)
  from api s t have guards: "\<not> int (length (accent_phrases ?q)) \<le> api"
    "\<not> (s < 0 \<or> int (length ?ms) < t)" by simp_all
  have unf: "apply_partial_match h a e api s t =
      (case apply_values set_pitch (pitch_values e) k s (t - s) ?q of
         (q2, Some err) \<Rightarrow> (h @ [q2], Inl err)
       | (q2, None) \<Rightarrow>
           (case apply_values set_vowel_length (length_values e) k s (t - s) q2 of
              (q3, Some err) \<Rightarrow> (h @ [q3], Inl err)
            | (q3, None) \<Rightarrow> (h @ [q3], Inr (length h))))"
    unfolding apply_partial_match_unfold Let_def
    by (simp only: guards if_False k option.case)
  show ?thesis
  proof (cases "values_of (pitch_values e) \<noteq> [] \<and>
                int (length (values_of (pitch_values e))) \<noteq> t - s")
    case True
    then have "apply_values set_pitch (pitch_values e) k s (t - s) ?q =
                 (?q, Some (ValueError Mora_count_mismatch))"
      by (simp add: pitch)
    with True show ?thesis by (simp add: unf)
  next
    case no_pitch_mismatch: False
    then have p: "apply_values set_pitch (pitch_values e) k s (t - s) ?q = (?q2, None)"
      by (simp add: pitch)
    show ?thesis
    proof (cases "values_of (length_values e) \<noteq> [] \<and>
                  int (length (values_of (length_values e))) \<noteq> t - s")
      case True
      then have "apply_values set_vowel_length (length_values e) k s (t - s) ?q2 =
                   (?q2, Some (ValueError Mora_count_mismatch))"
        by (simp add: len)
      with True no_pitch_mismatch show ?thesis
        by (auto simp add: unf p)
    next
      case False
      then have "apply_values set_vowel_length (length_values e) k s (t - s) ?q2 =
          (set_moras ?q k (overlay set_vowel_length (values_of (length_values e)) (nat s)
               (overlay set_pitch (values_of (pitch_values e)) (nat s) ?ms)), None)"
        by (simp add: len)
      with False no_pitch_mismatch show ?thesis
        by (auto simp add: unf p)
    qed
  qed
qed

lemma apply_partial_match_heap:
  "\<exists>x. fst (apply_partial_match h a e api s t) = h @ [x]"
  unfolding apply_partial_match_unfold Let_def
  by (simp split: option.splits prod.splits)

lemma apply_partial_match_result:
  "snd (apply_partial_match h a e api s t) = Inr r \<Longrightarrow> r = length h"
  unfolding apply_partial_match_unfold Let_def
  by (simp split: option.splits prod.splits if_splits)

lemma apply_partial_match_range_error:
  assumes "int (length (accent_phrases (h ! a))) \<le> api \<or>
           (py_index (length (accent_phrases (h ! a))) api = Some k \<and>
            (s < 0 \<or> int (length (moras (accent_phrases (h ! a) ! k))) < t))"
  shows "\<exists>err. apply_partial_match h a e api s t = (h @ [h ! a], Inl err) \<and> RangeError err"
  using assms unfolding apply_partial_match_unfold Let_def RangeError_def
  by (auto dest: py_index_Some)

lemma apply_partial_match_success:
  assumes "apply_partial_match h a e api s t = (h', Inr r)"
  shows "\<exists>k. py_index (length (accent_phrases (h ! a))) api = Some k \<and> 0 \<le> s \<and>
             t \<le> int (length (moras (accent_phrases (h ! a) ! k))) \<and>
             (values_of (pitch_values e) = [] \<or> int (length (values_of (pitch_values e))) = t - s) \<and>
             (values_of (length_values e) = [] \<or> int (length (values_of (length_values e))) = t - s) \<and>
             r = length h \<and>
             h' = h @ [set_moras (h ! a) k
                   (overlay set_vowel_length (values_of (length_values e)) (nat s)
                      (overlay set_pitch (values_of (pitch_values e)) (nat s)
                         (moras (accent_phrases (h ! a) ! k))))]"
proof -
  let ?n = "length (accent_phrases (h ! a))"
  from assms have not_big: "\<not> int ?n \<le> api"
    unfolding apply_partial_match_unfold Let_def by (auto split: if_splits)
  from assms not_big obtain k where k: "py_index ?n api = Some k"
    unfolding apply_partial_match_unfold Let_def by (cases "py_index ?n api") auto
  from assms not_big k have range: "0 \<le> s" "t \<le> int (length (moras (accent_phrases (h ! a) ! k)))"
    unfolding apply_partial_match_unfold Let_def by (auto split: if_splits)
  from assms show ?thesis
    unfolding apply_partial_match_valid [OF k range]
    using k range by (auto split: if_splits)
qed

lemmas eval_service = apply_partial_match_def deep_copy_query_def py_index_def apply_values_def
  upd_mora_def set_pitch_def set_vowel_length_def Let_def
  create_audio_query_def create_accent_phrase_def create_mora_def units_def create_entry_def
  ZUNDAMON_def zundamon_def DESU_def

text \<open>
  Claim C1, at the segment index \<open>-1\<close>, which is outside the range from 0 to the number
  of segments: on a query of one segment of five units, with an entry of five pitch
  values and the unit range from 0 to 5, \<open>apply_partial_match\<close> raises nothing. The test
  \<open>accent_phrase_index >= len(accent_phrases)\<close> lets the negative index pass, the list
  access takes the last segment, and the result is a copy with the five pitch values
  written into that segment.
\<close>

theorem negative_segment_index_overlays:
  "snd (apply_partial_match [one_segment] 0 zundamon_entry (- 1) 0 5) = Inr 1
   \<and> map pitch (moras (accent_phrases
        (fst (apply_partial_match [one_segment] 0 zundamon_entry (- 1) 0 5) ! 1) ! 0)) =
       [6, 61 / 10, 62 / 10, 63 / 10, 64 / 10]"
  by (simp add: eval_service one_segment_def zundamon_entry_def)

text \<open>
  Claim C2. When the entry carries a non-empty pitch or duration list whose length differs
  from \<open>mora_end - mora_start\<close>, \<open>apply_partial_match\<close> fails, and with a segment index
  and a unit range that pass the range checks it fails with the count mismatch. In all
  cases, failure or success, every object of the store, the argument among them, keeps
  its value; a result is a new object at a fresh address, so an assignment to the result
  does not change the argument.
\<close>

theorem count_mismatch_fails:
  assumes a: "a < length h"
  shows "((values_of (pitch_values e) \<noteq> [] \<and>
             int (length (values_of (pitch_values e))) \<noteq> t - s) \<or>
          (values_of (length_values e) \<noteq> [] \<and>
             int (length (values_of (length_values e))) \<noteq> t - s) \<longrightarrow>
            (\<exists>err. snd (apply_partial_match h a e api s t) = Inl err) \<and>
            (0 \<le> api \<and> api < int (length (accent_phrases (h ! a))) \<and> 0 \<le> s \<and>
             t \<le> int (length (moras (accent_phrases (h ! a) ! nat api))) \<longrightarrow>
               (\<exists>err. snd (apply_partial_match h a e api s t) = Inl err \<and> CountMismatch err)))
       \<and> (\<forall>b < length h. fst (apply_partial_match h a e api s t) ! b = h ! b)
       \<and> (\<forall>r. snd (apply_partial_match h a e api s t) = Inr r \<longrightarrow>
              r = length h \<and> r \<noteq> a \<and>
              length (fst (apply_partial_match h a e api s t)) = Suc (length h) \<and>
              (\<forall>x. (fst (apply_partial_match h a e api s t))[r := x] ! a = h ! a))"
proof (intro conjI impI allI)
  assume mismatch: "(values_of (pitch_values e) \<noteq> [] \<and>
             int (length (values_of (pitch_values e))) \<noteq> t - s) \<or>
          (values_of (length_values e) \<noteq> [] \<and>
             int (length (values_of (length_values e))) \<noteq> t - s)"
  show "\<exists>err. snd (apply_partial_match h a e api s t) = Inl err"
  proof (cases "snd (apply_partial_match h a e api s t)")
    case (Inl err)
    then show ?thesis by blast
  next
    case (Inr r)
    then have "apply_partial_match h a e api s t = (fst (apply_partial_match h a e api s t), Inr r)"
      by (simp add: prod_eq_iff)
    from apply_partial_match_success [OF this] mismatch show ?thesis by blast
  qed
next
  assume mismatch: "(values_of (pitch_values e) \<noteq> [] \<and>
             int (length (values_of (pitch_values e))) \<noteq> t - s) \<or>
          (values_of (length_values e) \<noteq> [] \<and>
             int (length (values_of (length_values e))) \<noteq> t - s)"
    and valid: "0 \<le> api \<and> api < int (length (accent_phrases (h ! a))) \<and> 0 \<le> s \<and>
             t \<le> int (length (moras (accent_phrases (h ! a) ! nat api)))"
  from valid have k: "py_index (length (accent_phrases (h ! a))) api = Some (nat api)"
    by (simp add: py_index_def)
  from valid have s: "0 \<le> s" and t: "t \<le> int (length (moras (accent_phrases (h ! a) ! nat api)))"
    by simp_all
  from mismatch
  have "snd (apply_partial_match h a e api s t) = Inl (ValueError Mora_count_mismatch)"
    unfolding apply_partial_match_valid [OF k s t] by auto
  then show "\<exists>err. snd (apply_partial_match h a e api s t) = Inl err \<and> CountMismatch err"
    by (simp add: CountMismatch_def)
next
  fix b assume "b < length h"
  moreover obtain x where "fst (apply_partial_match h a e api s t) = h @ [x]"
    using apply_partial_match_heap by blast
  ultimately show "fst (apply_partial_match h a e api s t) ! b = h ! b"
    by (simp add: nth_append)
next
  fix r assume r: "snd (apply_partial_match h a e api s t) = Inr r"
  obtain x where heap: "fst (apply_partial_match h a e api s t) = h @ [x]"
    using apply_partial_match_heap by blast
  from apply_partial_match_result [OF r] show "r = length h" .
  with a show "r \<noteq> a" by simp
  show "length (fst (apply_partial_match h a e api s t)) = Suc (length h)"
    by (simp add: heap)
  fix y
  from a \<open>r = length h\<close> show "(fst (apply_partial_match h a e api s t))[r := y] ! a = h ! a"
    by (simp add: heap nth_append)
qed

theorem count_mismatch_fails_witness:
  "snd (apply_partial_match [seven_units] 0 three_pitches 0 0 5) =
     Inl (ValueError Mora_count_mismatch)
   \<and> fst (apply_partial_match [seven_units] 0 three_pitches 0 0 5) ! 0 = seven_units"
proof -
  have a: "0 < length [seven_units]" by simp
  have mismatch: "(values_of (pitch_values three_pitches) \<noteq> [] \<and>
             int (length (values_of (pitch_values three_pitches))) \<noteq> 5 - 0) \<or>
          (values_of (length_values three_pitches) \<noteq> [] \<and>
             int (length (values_of (length_values three_pitches))) \<noteq> 5 - 0)"
    by (simp add: values_of_def three_pitches_def create_entry_def)
  have valid: "(0::int) \<le> 0 \<and> 0 < int (length (accent_phrases ([seven_units] ! 0))) \<and> (0::int) \<le> 0 \<and>
             5 \<le> int (length (moras (accent_phrases ([seven_units] ! 0) ! nat 0)))"
    by (simp add: seven_units_def create_audio_query_def create_accent_phrase_def units_def
        ZUNDAMON_def DESU_def)
  from count_mismatch_fails [OF a, of three_pitches 5 0 0] mismatch valid
  show ?thesis by (auto simp: CountMismatch_def)
qed

text \<open>
  Claim C7. After a successful \<open>apply_partial_match\<close> the result differs from the
  argument in the segment list only; each segment keeps its attributes and its number of
  units; every unit keeps its consonant duration and every field other than pitch and
  vowel duration; a unit outside the target segment or outside the range from
  \<open>mora_start\<close> to \<open>mora_end\<close> is unchanged; and with an absent or empty pitch
  (duration) list every pitch (vowel duration) is unchanged.
\<close>

theorem overlay_frame:
  assumes a: "a < length h"
    and ok: "apply_partial_match h a e api s t = (h', Inr r)"
  shows "(h' ! r)\<lparr>accent_phrases := accent_phrases (h ! a)\<rparr> = h ! a
       \<and> length (accent_phrases (h' ! r)) = length (accent_phrases (h ! a))
       \<and> (\<forall>i < length (accent_phrases (h ! a)).
            (accent_phrases (h' ! r) ! i)\<lparr>moras := moras (accent_phrases (h ! a) ! i)\<rparr> =
              accent_phrases (h ! a) ! i
            \<and> length (moras (accent_phrases (h' ! r) ! i)) =
                length (moras (accent_phrases (h ! a) ! i))
            \<and> (\<forall>j < length (moras (accent_phrases (h ! a) ! i)).
                 consonant_length (moras (accent_phrases (h' ! r) ! i) ! j) =
                   consonant_length (moras (accent_phrases (h ! a) ! i) ! j)
                 \<and> (moras (accent_phrases (h' ! r) ! i) ! j)
                      \<lparr>pitch := pitch (moras (accent_phrases (h ! a) ! i) ! j),
                       vowel_length := vowel_length (moras (accent_phrases (h ! a) ! i) ! j)\<rparr> =
                     moras (accent_phrases (h ! a) ! i) ! j
                 \<and> (i \<noteq> target_segment (length (accent_phrases (h ! a))) api \<or> int j < s \<or> t \<le> int j
                      \<longrightarrow> moras (accent_phrases (h' ! r) ! i) ! j =
                           moras (accent_phrases (h ! a) ! i) ! j)
                 \<and> (values_of (pitch_values e) = [] \<longrightarrow>
                      pitch (moras (accent_phrases (h' ! r) ! i) ! j) =
                        pitch (moras (accent_phrases (h ! a) ! i) ! j))
                 \<and> (values_of (length_values e) = [] \<longrightarrow>
                      vowel_length (moras (accent_phrases (h' ! r) ! i) ! j) =
                        vowel_length (moras (accent_phrases (h ! a) ! i) ! j))))"
proof -
  let ?q = "h ! a"
  let ?pv = "values_of (pitch_values e)"
  let ?lv = "values_of (length_values e)"
  from apply_partial_match_success [OF ok] obtain k where
    k: "py_index (length (accent_phrases ?q)) api = Some k" and s: "0 \<le> s" and
    t: "t \<le> int (length (moras (accent_phrases ?q ! k)))" and
    pv: "?pv = [] \<or> int (length ?pv) = t - s" and
    lv: "?lv = [] \<or> int (length ?lv) = t - s" and
    r: "r = length h" and
    h': "h' = h @ [set_moras ?q k (overlay set_vowel_length ?lv (nat s)
                      (overlay set_pitch ?pv (nat s) (moras (accent_phrases ?q ! k))))]"
    by blast
  let ?ms = "moras (accent_phrases ?q ! k)"
  let ?ms' = "overlay set_vowel_length ?lv (nat s) (overlay set_pitch ?pv (nat s) ?ms)"
  have q': "h' ! r = set_moras ?q k ?ms'" by (simp add: r h')
  from py_index_Some [OF k] have kn: "k < length (accent_phrases ?q)"
    and ktarget: "k = target_segment (length (accent_phrases ?q)) api" by simp_all
  have scalars: "(h' ! r)\<lparr>accent_phrases := accent_phrases ?q\<rparr> = ?q"
    by (simp add: q' set_moras_def)
  have len: "length (accent_phrases (h' ! r)) = length (accent_phrases ?q)"
    by (simp add: q')
  have phrase: "accent_phrases (h' ! r) ! i =
                  (if i = k then (accent_phrases ?q ! k)\<lparr>moras := ?ms'\<rparr> else accent_phrases ?q ! i)"
    if "i < length (accent_phrases ?q)" for i
    using that by (simp add: q' set_moras_def nth_list_update)
  have unit: "?ms' ! j =
      (if nat s \<le> j \<and> j < nat s + length ?lv
       then set_vowel_length (?lv ! (j - nat s))
              (if nat s \<le> j \<and> j < nat s + length ?pv
               then set_pitch (?pv ! (j - nat s)) (?ms ! j) else ?ms ! j)
       else (if nat s \<le> j \<and> j < nat s + length ?pv
             then set_pitch (?pv ! (j - nat s)) (?ms ! j) else ?ms ! j))"
    if "j < length ?ms" for j
    using that by (simp add: overlay_nth)
  have outside: "\<not> (nat s \<le> j \<and> j < nat s + length ?pv) \<and>
                 \<not> (nat s \<le> j \<and> j < nat s + length ?lv)"
    if "int j < s \<or> t \<le> int j" for j
    using that s pv lv by auto
  show ?thesis
  proof (intro conjI allI impI)
    show "(h' ! r)\<lparr>accent_phrases := accent_phrases ?q\<rparr> = ?q" by (rule scalars)
    show "length (accent_phrases (h' ! r)) = length (accent_phrases ?q)" by (rule len)
  next
    fix i assume i: "i < length (accent_phrases ?q)"
    show "(accent_phrases (h' ! r) ! i)\<lparr>moras := moras (accent_phrases ?q ! i)\<rparr> =
              accent_phrases ?q ! i"
      by (simp add: phrase [OF i])
    show "length (moras (accent_phrases (h' ! r) ! i)) = length (moras (accent_phrases ?q ! i))"
      by (simp add: phrase [OF i])
  next
    fix i j assume i: "i < length (accent_phrases ?q)"
      and j: "j < length (moras (accent_phrases ?q ! i))"
    let ?m = "moras (accent_phrases ?q ! i) ! j"
    let ?m' = "moras (accent_phrases (h' ! r) ! i) ! j"
    have m': "?m' = (if i = k then ?ms' ! j else ?m)" by (simp add: phrase [OF i])
    have fields: "consonant_length ?m' = consonant_length ?m \<and>
                  ?m'\<lparr>pitch := pitch ?m, vowel_length := vowel_length ?m\<rparr> = ?m \<and>
                  (?pv = [] \<longrightarrow> pitch ?m' = pitch ?m) \<and>
                  (?lv = [] \<longrightarrow> vowel_length ?m' = vowel_length ?m)"
    proof (cases "i = k")
      case True
      with j have jk: "j < length ?ms" by simp
      from True m' have "?m' = ?ms' ! j" "?m = ?ms ! j" by simp_all
      then show ?thesis
        by (simp add: unit [OF jk] set_pitch_def set_vowel_length_def)
    next
      case False
      then show ?thesis by (simp add: m')
    qed
    from fields show "consonant_length ?m' = consonant_length ?m" by blast
    from fields show "?m'\<lparr>pitch := pitch ?m, vowel_length := vowel_length ?m\<rparr> = ?m" by blast
    show "?m' = ?m"
      if "i \<noteq> target_segment (length (accent_phrases ?q)) api \<or> int j < s \<or> t \<le> int j"
    proof (cases "i = k")
      case True
      with j have jk: "j < length ?ms" by simp
      from that ktarget True have "int j < s \<or> t \<le> int j" by simp
      from outside [OF this] True m' show ?thesis by (auto simp add: unit [OF jk])
    next
      case False
      then show ?thesis by (simp add: m')
    qed
    from fields show "pitch ?m' = pitch ?m" if "?pv = []" using that by blast
    from fields show "vowel_length ?m' = vowel_length ?m" if "?lv = []" using that by blast
  qed
qed

theorem overlay_frame_witness:
  "moras (accent_phrases (fst (apply_partial_match [seven_units] 0 zundamon_entry 0 0 5) ! 1) ! 0) ! 5 =
     moras (accent_phrases seven_units ! 0) ! 5
   \<and> consonant_length
        (moras (accent_phrases (fst (apply_partial_match [seven_units] 0 zundamon_entry 0 0 5) ! 1) ! 0) ! 2) =
       consonant_length (moras (accent_phrases seven_units ! 0) ! 2)"
proof -
  have a: "0 < length [seven_units]" by simp
  have ok: "apply_partial_match [seven_units] 0 zundamon_entry 0 0 5 =
              (fst (apply_partial_match [seven_units] 0 zundamon_entry 0 0 5), Inr 1)"
    by (simp add: prod_eq_iff eval_service seven_units_def zundamon_entry_def)
  have i: "0 < length (accent_phrases ([seven_units] ! 0))"
    by (simp add: seven_units_def create_audio_query_def)
  have j5: "5 < length (moras (accent_phrases ([seven_units] ! 0) ! 0))"
    and j2: "2 < length (moras (accent_phrases ([seven_units] ! 0) ! 0))"
    by (simp_all add: seven_units_def create_audio_query_def create_accent_phrase_def units_def
        ZUNDAMON_def DESU_def)
  from overlay_frame [OF a ok] i j5 j2 show ?thesis by simp
qed

section \<open>Well-formed matches\<close>

lemma find_mora_start_bound:
  "find_mora_start ts pos i cc = 0 \<or>
     (i \<le> find_mora_start ts pos i cc \<and> find_mora_start ts pos i cc < i + length ts)"
proof (induction ts arbitrary: i cc)
  case Nil
  show ?case by simp
next
  case (Cons t ts)
  from Cons.IH [of "Suc i" "cc + length t"] show ?case by auto
qed

lemma find_mora_start_le: "find_mora_start ts pos 0 0 \<le> length ts"
  using find_mora_start_bound [of ts pos 0 0] by auto

lemma find_mora_end_bound:
  "me \<le> i \<Longrightarrow>
     me \<le> find_mora_end ts i mcc plen me \<and> find_mora_end ts i mcc plen me \<le> i + length ts"
proof (induction ts arbitrary: i mcc me)
  case Nil
  then show ?case by simp
next
  case (Cons t ts)
  from Cons.IH [of "Suc i" "Suc i" "mcc + length t"] Cons.prems
  show ?case by auto
qed

lemma scan_phrase_range:
  "(a, b) \<in> set (scan_phrase texts pp pron st) \<Longrightarrow>
     a \<le> b \<and> b \<le> length texts \<and> join (slice texts a b) = pron"
proof (induction texts pp pron st rule: scan_phrase.induct)
  case (1 texts pp pron st)
  show ?case
  proof (cases "pron = []")
    case True
    with "1.prems" show ?thesis by (simp add: scan_phrase.simps)
  next
    case nonempty: False
    show ?thesis
    proof (cases "str_find pp pron st")
      case None
      with nonempty "1.prems" show ?thesis
        by (simp add: scan_phrase.simps [of texts pp pron st])
    next
      case (Some pos)
      let ?ms = "find_mora_start texts pos 0 0"
      let ?me = "find_mora_end (drop ?ms texts) ?ms 0 (length pron) ?ms"
      from "1.prems" nonempty Some
      have "(a, b) \<in> set (if join (slice texts ?ms ?me) = pron then [(?ms, ?me)] else []) \<or>
            (a, b) \<in> set (scan_phrase texts pp pron (pos + length pron))"
        by (simp add: scan_phrase.simps [of texts pp pron st] Let_def)
      then show ?thesis
      proof
        assume "(a, b) \<in> set (if join (slice texts ?ms ?me) = pron then [(?ms, ?me)] else [])"
        then have ab: "a = ?ms" "b = ?me" and j: "join (slice texts ?ms ?me) = pron"
          by (auto split: if_splits)
        have "?ms \<le> ?me \<and> ?me \<le> ?ms + length (drop ?ms texts)"
          by (rule find_mora_end_bound) simp
        moreover have "?ms \<le> length texts" by (rule find_mora_start_le)
        ultimately show ?thesis using ab j by simp
      next
        assume "(a, b) \<in> set (scan_phrase texts pp pron (pos + length pron))"
        with "1.IH" [OF nonempty Some refl refl refl] show ?thesis by simp
      qed
    qed
  qed
qed

lemma find_matches_with_text_well_formed:
  assumes "m \<in> set (find_matches_with_text q entries input_text)"
  shows "well_formed_match q m"
proof -
  let ?fs = "filter (\<lambda>e. str_contains (word e) input_text) entries"
  from assms have "m \<in> set (concat (map (\<lambda>(phrase_index, ap).
                              partial_phrase_matches ?fs phrase_index ap)
                           (enumerate 0 (accent_phrases q))))"
    by (simp add: find_matches_with_text_def Let_def split: if_splits)
  then obtain i where i: "i < length (accent_phrases q)"
    and mi: "m \<in> set (partial_phrase_matches ?fs i (accent_phrases q ! i))"
    unfolding in_concat_enumerate by blast
  let ?ap = "accent_phrases q ! i"
  let ?texts = "map mora_text (moras ?ap)"
  from mi obtain e where "m \<in> set (entry_matches ?texts (join ?texts) i e)"
    by (auto simp: partial_phrase_matches_def Let_def split: if_splits)
  then obtain a b where ab: "(a, b) \<in> set (scan_phrase ?texts (join ?texts) (pronunciation e) 0)"
    and m: "m = MatchResult e (int i) (int a) (int b)"
    by (auto simp: entry_matches_def)
  from scan_phrase_range [OF ab]
  have r: "a \<le> b" "b \<le> length (moras ?ap)" "join (slice ?texts a b) = pronunciation e"
    by simp_all
  have "slice ?texts a b = map mora_text (slice (moras ?ap) a b)"
    by (simp add: slice_def take_map drop_map)
  with r(3) have "concat (map mora_text (slice (moras ?ap) a b)) = pronunciation e"
    by (simp add: join_def)
  with i r(1,2) show ?thesis by (simp add: well_formed_match_def m)
qed

lemma find_matches_well_formed:
  assumes "m \<in> set (find_matches q entries)"
  shows "well_formed_match q m"
proof -
  from assms obtain i where i: "i < length (accent_phrases q)"
    and mi: "m \<in> set (if moras (accent_phrases q ! i) = [] then []
                     else map (\<lambda>e. MatchResult e (int i) 0
                                      (int (length (moras (accent_phrases q ! i)))))
                              (filter (\<lambda>e. pronunciation e = segment_string (accent_phrases q ! i))
                                 entries))"
    unfolding find_matches_filter in_concat_enumerate by blast
  then obtain e where "pronunciation e = segment_string (accent_phrases q ! i)"
    and "m = MatchResult e (int i) 0 (int (length (moras (accent_phrases q ! i))))"
    by (auto split: if_splits)
  with i show ?thesis
    by (simp add: well_formed_match_def slice_def segment_string_def)
qed

lemma well_formed_no_range_error:
  assumes wf: "well_formed_match (h ! a) m"
    and err: "snd (apply_partial_match h a (entry_of m) (accent_phrase_index m)
                (mora_start_index m) (mora_end_index m)) = Inl err"
  shows "CountMismatch err \<and> \<not> RangeError err"
proof -
  let ?api = "accent_phrase_index m"
  from wf have k: "py_index (length (accent_phrases (h ! a))) ?api = Some (nat ?api)"
    and s: "0 \<le> mora_start_index m"
    and t: "mora_end_index m \<le> int (length (moras (accent_phrases (h ! a) ! nat ?api)))"
    by (simp_all add: well_formed_match_def py_index_def)
  from err have "err = ValueError Mora_count_mismatch"
    unfolding apply_partial_match_valid [OF k s t] by (auto split: if_splits)
  then show ?thesis by (simp add: CountMismatch_def RangeError_def)
qed

text \<open>
  Claim C10. Every match returned by \<open>find_matches\<close> or \<open>find_matches_with_text\<close> is
  well-formed for the query; and \<open>apply_partial_match\<close> called with such a match on an
  object with the value of that query never fails with a range error: when it fails, it
  is with the count mismatch.
\<close>

theorem matcher_results_well_formed:
  assumes "m \<in> set (find_matches q entries) \<union> set (find_matches_with_text q entries input_text)"
  shows "well_formed_match q m
       \<and> (\<forall>h a err. a < length h \<and> h ! a = q \<and>
             snd (apply_partial_match h a (entry_of m) (accent_phrase_index m)
                    (mora_start_index m) (mora_end_index m)) = Inl err
             \<longrightarrow> CountMismatch err \<and> \<not> RangeError err)"
proof -
  from assms have wf: "well_formed_match q m"
    using find_matches_well_formed find_matches_with_text_well_formed by blast
  then show ?thesis using well_formed_no_range_error by blast
qed

theorem matcher_results_well_formed_witness:
  "well_formed_match seven_units (MatchResult (create_entry zundamon ZUNDAMON) 0 0 5)
   \<and> snd (apply_partial_match [seven_units] 0 (create_entry zundamon ZUNDAMON) 0 0 5) = Inr 1"
proof -
  have "MatchResult (create_entry zundamon ZUNDAMON) 0 0 5 \<in>
          set (find_matches seven_units [create_entry zundamon ZUNDAMON]) \<union>
          set (find_matches_with_text seven_units [create_entry zundamon ZUNDAMON]
                 (zundamon @ desu))"
    by (simp add: find_matches_with_text_def partial_phrase_matches_def entry_matches_def
        scan_phrase.simps str_find.simps str_contains_def join_def slice_def seven_units_def
        create_audio_query_def create_accent_phrase_def create_mora_def create_entry_def
        units_def ZUNDAMON_def zundamon_def DESU_def desu_def enumerate_eq_zip)
  from matcher_results_well_formed [OF this]
  have "well_formed_match seven_units (MatchResult (create_entry zundamon ZUNDAMON) 0 0 5)"
    by blast
  moreover have "snd (apply_partial_match [seven_units] 0 (create_entry zundamon ZUNDAMON) 0 0 5)
                   = Inr 1"
    by (simp add: eval_service seven_units_def)
  ultimately show ?thesis by blast
qed

section \<open>Partial mode: the scan\<close>




lemma unit_concat_length:
  "\<forall>t \<in> set texts. length t = Suc 0 \<Longrightarrow> length (concat texts) = length texts"
  by (induction texts) auto

lemma unit_concat_drop:
  "\<forall>t \<in> set texts. length t = Suc 0 \<Longrightarrow> concat (drop n texts) = drop n (concat texts)"
proof (induction texts arbitrary: n)
  case Nil
  show ?case by simp
next
  case (Cons t texts)
  then show ?case by (cases n) auto
qed

lemma unit_concat_take:
  "\<forall>t \<in> set texts. length t = Suc 0 \<Longrightarrow> concat (take n texts) = take n (concat texts)"
proof (induction texts arbitrary: n)
  case Nil
  show ?case by simp
next
  case (Cons t texts)
  then show ?case by (cases n) auto
qed

lemma unit_find_mora_start:
  "\<forall>t \<in> set ts. length t = Suc 0 \<Longrightarrow> cc \<le> pos \<Longrightarrow> pos - cc < length ts \<Longrightarrow>
     find_mora_start ts pos i cc = i + (pos - cc)"
proof (induction ts arbitrary: i cc)
  case Nil
  then show ?case by simp
next
  case (Cons t ts)
  show ?case
  proof (cases "cc = pos")
    case True
    then show ?thesis by simp
  next
    case False
    with Cons.prems have "Suc cc \<le> pos" "pos - Suc cc < length ts" by simp_all
    with Cons.IH [of "Suc cc" "Suc i"] Cons.prems False show ?thesis by simp
  qed
qed

lemma unit_find_mora_end:
  "\<forall>t \<in> set ts. length t = Suc 0 \<Longrightarrow> mcc < plen \<Longrightarrow> plen - mcc \<le> length ts \<Longrightarrow>
     find_mora_end ts i mcc plen me = i + (plen - mcc)"
proof (induction ts arbitrary: i mcc me)
  case Nil
  then show ?case by simp
next
  case (Cons t ts)
  show ?case
  proof (cases "plen \<le> Suc mcc")
    case True
    with Cons.prems show ?thesis by simp
  next
    case False
    with Cons.prems have "Suc mcc < plen" "plen - Suc mcc \<le> length ts" by simp_all
    with Cons.IH [of "Suc mcc" "Suc i" "Suc i"] Cons.prems False show ?thesis by simp
  qed
qed

lemma unit_scan_phrase:
  assumes units: "\<forall>t \<in> set texts. length t = Suc 0"
  shows "scan_phrase texts (concat texts) pron st =
           map (\<lambda>p. (p, p + length pron)) (nonoverlapping_occurrences (concat texts) pron st)"
proof (induction "concat texts" pron st rule: nonoverlapping_occurrences.induct)
  case (1 pron st)
  let ?s = "concat texts"
  show ?case
  proof (cases "pron = []")
    case True
    then show ?thesis
      by (simp add: scan_phrase.simps nonoverlapping_occurrences.simps)
  next
    case nonempty: False
    show ?thesis
    proof (cases "str_find ?s pron st")
      case None
      with nonempty show ?thesis
        by (simp add: scan_phrase.simps [of texts ?s pron st]
            nonoverlapping_occurrences.simps [of ?s pron st])
    next
      case (Some pos)
      from str_find_Some [OF Some] have occ: "occurs_at ?s pron pos" by simp
      then have fits: "pos + length pron \<le> length texts"
        and eq: "take (length pron) (drop pos ?s) = pron"
        by (simp_all add: occurs_at_def unit_concat_length [OF units])
      from nonempty have plen: "0 < length pron" by simp
      with fits have pos: "pos < length texts" by linarith
      have ms: "find_mora_start texts pos 0 0 = pos"
        using unit_find_mora_start [OF units, of 0 pos 0] pos by simp
      have units_drop: "\<forall>t \<in> set (drop pos texts). length t = Suc 0"
        using units by (meson in_set_dropD)
      have me: "find_mora_end (drop pos texts) pos 0 (length pron) pos = pos + length pron"
        using unit_find_mora_end [OF units_drop, of 0 "length pron" pos pos] plen fits by simp
      have "join (slice texts pos (pos + length pron)) = take (length pron) (drop pos ?s)"
        by (simp add: join_def slice_def unit_concat_take [OF units_drop]
            unit_concat_drop [OF units])
      with eq have verified: "join (slice texts pos (pos + length pron)) = pron" by simp
      have "scan_phrase texts ?s pron st =
              (pos, pos + length pron) # scan_phrase texts ?s pron (pos + length pron)"
        using nonempty Some
        by (simp add: scan_phrase.simps [of texts ?s pron st] Let_def ms me verified)
      with "1.hyps" [OF nonempty Some] nonempty Some show ?thesis
        by (simp add: nonoverlapping_occurrences.simps [of ?s pron st])
    qed
  qed
qed


lemma occurrences_in_empty [simp]: "nonoverlapping_occurrences [] sub c = []"
proof (cases "sub = []")
  case True
  then show ?thesis by (simp add: nonoverlapping_occurrences.simps)
next
  case False
  then have "str_find [] sub c = None" by (simp add: str_find.simps [of "[]" sub c])
  with False show ?thesis by (simp add: nonoverlapping_occurrences.simps [of "[]" sub c])
qed

lemma concat_map_Nil: "(\<And>x. x \<in> set xs \<Longrightarrow> f x = []) \<Longrightarrow> concat (map f xs) = []"
  by (induction xs) auto

lemma unit_partial_phrase_matches:
  assumes units: "\<forall>m \<in> set (moras ap). length (mora_text m) = 1"
  shows "partial_phrase_matches fs i ap =
           concat (map (\<lambda>e. map (\<lambda>p. MatchResult e (int i) (int p)
                                       (int (p + length (pronunciation e))))
                                (nonoverlapping_occurrences (segment_string ap)
                                   (pronunciation e) 0))
                       fs)"
proof (cases "moras ap = []")
  case True
  then have "segment_string ap = []" by (simp add: segment_string_def)
  with True show ?thesis
    by (simp add: partial_phrase_matches_def concat_map_Nil)
next
  case False
  let ?texts = "map mora_text (moras ap)"
  from units have u: "\<forall>t \<in> set ?texts. length t = Suc 0" by simp
  have "entry_matches ?texts (join ?texts) i e =
          map (\<lambda>p. MatchResult e (int i) (int p) (int (p + length (pronunciation e))))
              (nonoverlapping_occurrences (segment_string ap) (pronunciation e) 0)" for e
    unfolding entry_matches_def join_def unit_scan_phrase [OF u]
    by (simp add: segment_string_def)
  then have "entry_matches ?texts (join ?texts) i =
          (\<lambda>e. map (\<lambda>p. MatchResult e (int i) (int p) (int (p + length (pronunciation e))))
                   (nonoverlapping_occurrences (segment_string ap) (pronunciation e) 0))"
    by (rule ext)
  with False show ?thesis by (simp only: partial_phrase_matches_def Let_def if_False)
qed



lemma unit_offset_0 [simp]: "unit_offset ts 0 = 0"
  by (simp add: unit_offset_def)

lemma unit_offset_Suc [simp]: "unit_offset (t # ts) (Suc k) = length t + unit_offset ts k"
  by (simp add: unit_offset_def)






























section \<open>The whole-query overlay\<close>

lemma get_total_mora_count_flat: "get_total_mora_count q = length (flat q)"
proof -
  have "fold (\<lambda>phrase total. total + length (moras phrase)) aps n =
          n + length (concat (map moras aps))" for aps :: "accent_phrase list" and n
    by (induction aps arbitrary: n) simp_all
  from this [of "accent_phrases q" 0] show ?thesis
    by (simp add: get_total_mora_count_def flat_def)
qed

lemma walk_moras_result:
  assumes "mi + length ms \<le> nat start + length vs"
  shows "walk_moras upd vs start ms mi (mi - nat start) =
           (map (\<lambda>(i, m). if nat start \<le> i then upd (vs ! (i - nat start)) m else m)
                (enumerate mi ms),
            mi + length ms, mi + length ms - nat start)"
  using assms
proof (induction ms arbitrary: mi)
  case Nil
  show ?case by simp
next
  case (Cons m ms)
  from Cons.prems have rest: "Suc mi + length ms \<le> nat start + length vs" by simp
  show ?case
  proof (cases "nat start \<le> mi")
    case True
    with Cons.prems have cond: "start \<le> int mi \<and> mi - nat start < length vs" by auto
    from True have suc: "Suc (mi - nat start) = Suc mi - nat start" by simp
    from Cons.IH [OF rest] cond True show ?thesis
      by (simp add: suc)
  next
    case False
    then have ns: "\<not> start \<le> int mi" by auto
    from False have z: "mi - nat start = 0" "Suc mi - nat start = 0" by simp_all
    from Cons.IH [OF rest] False show ?thesis
      by (simp add: ns z)
  qed
qed

lemma walk_phrases_result:
  assumes "mi + length (concat (map moras ps)) \<le> nat start + length vs"
  shows "\<exists>ps'. walk_phrases upd vs start ps mi (mi - nat start) =
                 (ps', mi + length (concat (map moras ps)),
                  mi + length (concat (map moras ps)) - nat start) \<and>
               map (\<lambda>ap. ap\<lparr>moras := []\<rparr>) ps' = map (\<lambda>ap. ap\<lparr>moras := []\<rparr>) ps \<and>
               map (\<lambda>ap. length (moras ap)) ps' = map (\<lambda>ap. length (moras ap)) ps \<and>
               concat (map moras ps') =
                 map (\<lambda>(i, m). if nat start \<le> i then upd (vs ! (i - nat start)) m else m)
                     (enumerate mi (concat (map moras ps)))"
  using assms
proof (induction ps arbitrary: mi)
  case Nil
  show ?case by simp
next
  case (Cons p ps)
  let ?f = "\<lambda>(i, m). if nat start \<le> i then upd (vs ! (i - nat start)) m else m"
  let ?mi' = "mi + length (moras p)"
  from Cons.prems have inner: "mi + length (moras p) \<le> nat start + length vs"
    and rest: "?mi' + length (concat (map moras ps)) \<le> nat start + length vs" by simp_all
  from walk_moras_result [OF inner, of upd]
  have wm: "walk_moras upd vs start (moras p) mi (mi - nat start) =
              (map ?f (enumerate mi (moras p)), ?mi', ?mi' - nat start)" .
  from Cons.IH [OF rest] obtain ps' where
    wp: "walk_phrases upd vs start ps ?mi' (?mi' - nat start) =
           (ps', ?mi' + length (concat (map moras ps)),
            ?mi' + length (concat (map moras ps)) - nat start)" and
    attrs: "map (\<lambda>ap. ap\<lparr>moras := []\<rparr>) ps' = map (\<lambda>ap. ap\<lparr>moras := []\<rparr>) ps" and
    lens: "map (\<lambda>ap. length (moras ap)) ps' = map (\<lambda>ap. length (moras ap)) ps" and
    units: "concat (map moras ps') = map ?f (enumerate ?mi' (concat (map moras ps)))"
    by blast
  let ?p' = "p\<lparr>moras := map ?f (enumerate mi (moras p))\<rparr>"
  have "walk_phrases upd vs start (p # ps) mi (mi - nat start) =
          (?p' # ps', mi + length (concat (map moras (p # ps))),
           mi + length (concat (map moras (p # ps))) - nat start)"
    by (simp add: wm wp add.assoc)
  moreover have "map (\<lambda>ap. ap\<lparr>moras := []\<rparr>) (?p' # ps') = map (\<lambda>ap. ap\<lparr>moras := []\<rparr>) (p # ps)"
    by (simp add: attrs)
  moreover have "map (\<lambda>ap. length (moras ap)) (?p' # ps') = map (\<lambda>ap. length (moras ap)) (p # ps)"
    by (simp add: lens)
  moreover have "concat (map moras (?p' # ps')) =
                   map ?f (enumerate mi (concat (map moras (p # ps))))"
    by (simp add: units enumerate_append_eq)
  ultimately show ?case by blast
qed

lemma apply_flat_values_empty:
  "apply_flat_values upd h a [] start = (h @ [h ! a], Inr (length h))"
  by (simp add: apply_flat_values_def deep_copy_query_def)

lemma apply_flat_values_mismatch:
  assumes "vs \<noteq> []" and "int (length vs) \<noteq> int (length (flat (h ! a))) - start"
  shows "apply_flat_values upd h a vs start = (h @ [h ! a], Inl (ValueError Mora_count_mismatch))"
  using assms
  by (simp add: apply_flat_values_def deep_copy_query_def Let_def get_total_mora_count_flat)

lemma apply_flat_values_success:
  assumes nonempty: "vs \<noteq> []"
    and avail: "int (length vs) = int (length (flat (h ! a))) - start"
  shows "\<exists>q'. apply_flat_values upd h a vs start = (h @ [q'], Inr (length h)) \<and>
              same_shape (h ! a) q' \<and>
              flat q' =
                map (\<lambda>(k, m). if nat start \<le> k then upd (vs ! (k - nat start)) m else m)
                    (enumerate 0 (flat (h ! a)))"
proof -
  let ?q = "h ! a"
  from avail have total: "length (flat ?q) \<le> nat start + length vs" by linarith
  let ?f = "\<lambda>(i, m). if nat start \<le> i then upd (vs ! (i - nat start)) m else m"
  from total have bound: "0 + length (concat (map moras (accent_phrases ?q))) \<le> nat start + length vs"
    by (simp add: flat_def)
  from walk_phrases_result [OF bound, of upd] obtain ps' where
    wp: "fst (walk_phrases upd vs start (accent_phrases ?q) 0 0) = ps'" and
    attrs: "map (\<lambda>ap. ap\<lparr>moras := []\<rparr>) ps' = map (\<lambda>ap. ap\<lparr>moras := []\<rparr>) (accent_phrases ?q)" and
    lens: "map (\<lambda>ap. length (moras ap)) ps' = map (\<lambda>ap. length (moras ap)) (accent_phrases ?q)" and
    units: "concat (map moras ps') = map ?f (enumerate 0 (flat ?q))"
    by (auto simp: flat_def)
  let ?q' = "?q\<lparr>accent_phrases := ps'\<rparr>"
  have run: "apply_flat_values upd h a vs start = (h @ [?q'], Inr (length h))"
    using nonempty avail
    by (simp add: apply_flat_values_def deep_copy_query_def Let_def get_total_mora_count_flat wp)
  have shape: "same_shape ?q ?q'"
    by (simp add: same_shape_def attrs lens)
  from units have "flat ?q' = map ?f (enumerate 0 (flat ?q))"
    by (simp add: flat_def)
  with run shape show ?thesis by blast
qed

lemma available_from_start:
  assumes "0 \<le> start" and "vs \<noteq> []"
  shows "(int (length vs) = int (length ms) - start) =
           (length vs = length (drop (nat start) ms))"
proof -
  from assms(2) have "0 < length vs" by simp
  with assms(1) show ?thesis by (simp del: length_greater_0_conv) linarith
qed

text \<open>
  The behaviour of the two functions at every starting index. With an empty list they
  return an unchanged copy. With a non-empty list they compare its length with the total
  number of units minus the starting index and fail with the count mismatch when the two
  differ; for a starting index \<open>start \<ge> 0\<close> that number is the number of units from the
  starting index to the end of the query, the units taken in document order across all
  segments. When the two agree they return a copy of the same shape in which unit \<open>k\<close> in
  document order is the old unit with its field \<open>pitch\<close> (respectively \<open>vowel_length\<close>)
  set to the value at position \<open>k - start\<close> if \<open>start \<le> k\<close>, and the old unit otherwise.
\<close>

lemma flat_values_from_start:
  "apply_pitch_values h a [] start = (h @ [h ! a], Inr (length h))
   \<and> apply_length_values h a [] start = (h @ [h ! a], Inr (length h))
   \<and> (vs \<noteq> [] \<and> int (length vs) \<noteq> int (length (flat (h ! a))) - start \<longrightarrow>
        apply_pitch_values h a vs start = (h @ [h ! a], Inl (ValueError Mora_count_mismatch))
        \<and> apply_length_values h a vs start =
            (h @ [h ! a], Inl (ValueError Mora_count_mismatch)))
   \<and> (vs \<noteq> [] \<and> int (length vs) = int (length (flat (h ! a))) - start \<longrightarrow>
        (\<exists>q'. apply_pitch_values h a vs start = (h @ [q'], Inr (length h)) \<and>
              same_shape (h ! a) q' \<and> length (flat q') = length (flat (h ! a)) \<and>
              (\<forall>k < length (flat (h ! a)).
                 flat q' ! k =
                   (if nat start \<le> k
                    then (flat (h ! a) ! k)\<lparr>pitch := vs ! (k - nat start)\<rparr>
                    else flat (h ! a) ! k)))
        \<and> (\<exists>q'. apply_length_values h a vs start = (h @ [q'], Inr (length h)) \<and>
              same_shape (h ! a) q' \<and> length (flat q') = length (flat (h ! a)) \<and>
              (\<forall>k < length (flat (h ! a)).
                 flat q' ! k =
                   (if nat start \<le> k
                    then (flat (h ! a) ! k)\<lparr>vowel_length := vs ! (k - nat start)\<rparr>
                    else flat (h ! a) ! k))))
   \<and> (0 \<le> start \<and> vs \<noteq> [] \<longrightarrow>
        (int (length vs) = int (length (flat (h ! a))) - start) =
          (length vs = length (drop (nat start) (flat (h ! a)))))"
proof (intro conjI impI)
  show "apply_pitch_values h a [] start = (h @ [h ! a], Inr (length h))"
    by (simp add: apply_pitch_values_def apply_flat_values_empty)
  show "apply_length_values h a [] start = (h @ [h ! a], Inr (length h))"
    by (simp add: apply_length_values_def apply_flat_values_empty)
next
  assume "vs \<noteq> [] \<and> int (length vs) \<noteq> int (length (flat (h ! a))) - start"
  then have ne: "vs \<noteq> []" and len: "int (length vs) \<noteq> int (length (flat (h ! a))) - start"
    by simp_all
  show "apply_pitch_values h a vs start = (h @ [h ! a], Inl (ValueError Mora_count_mismatch))"
    unfolding apply_pitch_values_def by (rule apply_flat_values_mismatch [OF ne len])
  show "apply_length_values h a vs start = (h @ [h ! a], Inl (ValueError Mora_count_mismatch))"
    unfolding apply_length_values_def by (rule apply_flat_values_mismatch [OF ne len])
next
  assume "vs \<noteq> [] \<and> int (length vs) = int (length (flat (h ! a))) - start"
  then have ne: "vs \<noteq> []" and len: "int (length vs) = int (length (flat (h ! a))) - start"
    by simp_all
  from apply_flat_values_success [OF ne len, of set_pitch] obtain q' where
    run: "apply_flat_values set_pitch h a vs start = (h @ [q'], Inr (length h))" and
    shape: "same_shape (h ! a) q'" and
    units: "flat q' =
              map (\<lambda>(k, m). if nat start \<le> k then set_pitch (vs ! (k - nat start)) m else m)
                  (enumerate 0 (flat (h ! a)))" by blast
  have "\<forall>k < length (flat (h ! a)).
          flat q' ! k = (if nat start \<le> k
                         then (flat (h ! a) ! k)\<lparr>pitch := vs ! (k - nat start)\<rparr>
                         else flat (h ! a) ! k)"
    by (simp add: units nth_enumerate_eq set_pitch_def)
  moreover have "length (flat q') = length (flat (h ! a))" by (simp add: units)
  ultimately
  show "\<exists>q'. apply_pitch_values h a vs start = (h @ [q'], Inr (length h)) \<and>
                  same_shape (h ! a) q' \<and> length (flat q') = length (flat (h ! a)) \<and>
                  (\<forall>k < length (flat (h ! a)).
                     flat q' ! k =
                       (if nat start \<le> k
                        then (flat (h ! a) ! k)\<lparr>pitch := vs ! (k - nat start)\<rparr>
                        else flat (h ! a) ! k))"
    using run shape unfolding apply_pitch_values_def by blast
  from apply_flat_values_success [OF ne len, of set_vowel_length] obtain q'' where
    run: "apply_flat_values set_vowel_length h a vs start = (h @ [q''], Inr (length h))" and
    shape: "same_shape (h ! a) q''" and
    units: "flat q'' =
              map (\<lambda>(k, m). if nat start \<le> k then set_vowel_length (vs ! (k - nat start)) m
                             else m)
                  (enumerate 0 (flat (h ! a)))" by blast
  have "\<forall>k < length (flat (h ! a)).
          flat q'' ! k = (if nat start \<le> k
                         then (flat (h ! a) ! k)\<lparr>vowel_length := vs ! (k - nat start)\<rparr>
                         else flat (h ! a) ! k)"
    by (simp add: units nth_enumerate_eq set_vowel_length_def)
  moreover have "length (flat q'') = length (flat (h ! a))" by (simp add: units)
  ultimately
  show "\<exists>q'. apply_length_values h a vs start = (h @ [q'], Inr (length h)) \<and>
                  same_shape (h ! a) q' \<and> length (flat q') = length (flat (h ! a)) \<and>
                  (\<forall>k < length (flat (h ! a)).
                     flat q' ! k =
                       (if nat start \<le> k
                        then (flat (h ! a) ! k)\<lparr>vowel_length := vs ! (k - nat start)\<rparr>
                        else flat (h ! a) ! k))"
    using run shape unfolding apply_length_values_def by blast
next
  assume "0 \<le> start \<and> vs \<noteq> []"
  then have "0 \<le> start" and "vs \<noteq> []" by simp_all
  then show "(int (length vs) = int (length (flat (h ! a))) - start) =
               (length vs = length (drop (nat start) (flat (h ! a))))"
    by (rule available_from_start)
qed

lemmas eval_flat = apply_pitch_values_def apply_length_values_def apply_flat_values_def
  deep_copy_query_def get_total_mora_count_def set_pitch_def set_vowel_length_def Let_def
  flat_def two_three_def create_audio_query_def create_accent_phrase_def create_mora_def

text \<open>
  The example of the specification, evaluated: five pitch values from index 0 over
  segments of 2 and 3 units put the first two into segment 0 and the last three into
  segment 1; five durations go into the field \<open>vowel_length\<close> the same way; three values
  from index 2 leave the two units of segment 0 as they were.
\<close>

lemma values_across_phrases:
  "snd (apply_pitch_values [two_three] 0 [6, 61 / 10, 62 / 10, 63 / 10, 64 / 10] 0) = Inr 1
   \<and> map (\<lambda>ap. map pitch (moras ap))
         (accent_phrases
            (fst (apply_pitch_values [two_three] 0 [6, 61 / 10, 62 / 10, 63 / 10, 64 / 10] 0) ! 1)) =
       [[6, 61 / 10], [62 / 10, 63 / 10, 64 / 10]]
   \<and> map (\<lambda>ap. map vowel_length (moras ap))
         (accent_phrases
            (fst (apply_length_values [two_three] 0
                    [21 / 100, 22 / 100, 23 / 100, 24 / 100, 25 / 100] 0) ! 1)) =
       [[21 / 100, 22 / 100], [23 / 100, 24 / 100, 25 / 100]]
   \<and> map (\<lambda>ap. map pitch (moras ap))
         (accent_phrases
            (fst (apply_pitch_values [two_three] 0 [62 / 10, 63 / 10, 64 / 10] 2) ! 1)) =
       [[0, 0], [62 / 10, 63 / 10, 64 / 10]]"
  by (simp add: eval_flat)

text \<open>
  Claim C8, at the starting index \<open>-2\<close>: on the query with segments of 2 and 3 units,
  which has five units from any starting index below 0 to its end, \<open>apply_pitch_values\<close>
  and \<open>apply_length_values\<close> take a list of seven values without the count mismatch.
  They compare the length of the list with \<open>total - start_mora_index = 7\<close>, write the
  first five values into the fields \<open>pitch\<close> (respectively \<open>vowel_length\<close>) of the five
  units and drop the last two. A list of five values, the number of units of the query,
  is refused with the count mismatch at that starting index.
\<close>

theorem negative_start_accepts_surplus:
  "snd (apply_pitch_values [two_three] 0
          [6, 61 / 10, 62 / 10, 63 / 10, 64 / 10, 65 / 10, 66 / 10] (- 2)) = Inr 1
   \<and> map pitch (flat (fst (apply_pitch_values [two_three] 0
          [6, 61 / 10, 62 / 10, 63 / 10, 64 / 10, 65 / 10, 66 / 10] (- 2)) ! 1)) =
       [6, 61 / 10, 62 / 10, 63 / 10, 64 / 10]
   \<and> snd (apply_length_values [two_three] 0
          [21 / 100, 22 / 100, 23 / 100, 24 / 100, 25 / 100, 26 / 100, 27 / 100] (- 2)) = Inr 1
   \<and> map vowel_length (flat (fst (apply_length_values [two_three] 0
          [21 / 100, 22 / 100, 23 / 100, 24 / 100, 25 / 100, 26 / 100, 27 / 100] (- 2)) ! 1)) =
       [21 / 100, 22 / 100, 23 / 100, 24 / 100, 25 / 100]
   \<and> length (flat two_three) = 5
   \<and> snd (apply_pitch_values [two_three] 0 [6, 61 / 10, 62 / 10, 63 / 10, 64 / 10] (- 2)) =
       Inl (ValueError Mora_count_mismatch)
   \<and> snd (apply_length_values [two_three] 0
          [21 / 100, 22 / 100, 23 / 100, 24 / 100, 25 / 100] (- 2)) =
       Inl (ValueError Mora_count_mismatch)"
  by (simp add: eval_flat)

section \<open>The orchestrator\<close>

lemma apply_matches_step:
  "apply_matches h q applied (m # ms) =
     (case apply_partial_match h q (entry_of m) (accent_phrase_index m)
             (mora_start_index m) (mora_end_index m) of
        (h', Inr q') \<Rightarrow> apply_matches h' q' (applied @ [word (entry_of m)]) ms
      | (h', Inl (ValueError v)) \<Rightarrow> apply_matches h' q applied ms
      | (h', Inl IndexError) \<Rightarrow> (h', Inl IndexError)
      | (h', Inl OtherError) \<Rightarrow> (h', Inl OtherError))"
  by simp

lemma apply_matches_heap:
  "apply_matches h q applied ms = (h', res) \<Longrightarrow>
     length h \<le> length h' \<and> (\<forall>b < length h. h' ! b = h ! b)"
proof (induction ms arbitrary: h q applied)
  case Nil
  then show ?case by simp
next
  case (Cons m ms)
  let ?step = "apply_partial_match h q (entry_of m) (accent_phrase_index m)
                 (mora_start_index m) (mora_end_index m)"
  obtain x where heap: "fst ?step = h @ [x]" using apply_partial_match_heap by blast
  obtain h1 r where step: "?step = (h1, r)" by (cases ?step)
  with heap have h1: "h1 = h @ [x]" by simp
  have ext: "length h \<le> length h1 \<and> (\<forall>b < length h. h1 ! b = h ! b)"
    by (simp add: h1 nth_append)
  show ?case
  proof (cases r)
    case (Inr q')
    with Cons.prems step have "apply_matches h1 q' (applied @ [word (entry_of m)]) ms = (h', res)"
      by simp
    from Cons.IH [OF this] ext show ?thesis by auto
  next
    case (Inl err)
    show ?thesis
    proof (cases err)
      case (ValueError v)
      with Inl Cons.prems step have "apply_matches h1 q applied ms = (h', res)" by simp
      from Cons.IH [OF this] ext show ?thesis by auto
    next
      case IndexError
      with Inl Cons.prems step have "h' = h1" by simp
      with ext show ?thesis by simp
    next
      case OtherError
      with Inl Cons.prems step have "h' = h1" by simp
      with ext show ?thesis by simp
    qed
  qed
qed

lemma apply_matches_applied:
  "apply_matches h q applied ms = (h', Inr (q', applied')) \<Longrightarrow>
     length applied' \<le> length applied + length ms"
proof (induction ms arbitrary: h q applied)
  case Nil
  then show ?case by simp
next
  case (Cons m ms)
  let ?step = "apply_partial_match h q (entry_of m) (accent_phrase_index m)
                 (mora_start_index m) (mora_end_index m)"
  obtain h1 r where step: "?step = (h1, r)" by (cases ?step)
  show ?case
  proof (cases r)
    case (Inr q1)
    with Cons.prems step
    have "apply_matches h1 q1 (applied @ [word (entry_of m)]) ms = (h', Inr (q', applied'))"
      by simp
    from Cons.IH [OF this] show ?thesis by simp
  next
    case (Inl err)
    show ?thesis
    proof (cases err)
      case (ValueError v)
      with Inl Cons.prems step have "apply_matches h1 q applied ms = (h', Inr (q', applied'))"
        by simp
      from Cons.IH [OF this] show ?thesis by simp
    next
      case IndexError
      with Inl Cons.prems step show ?thesis by simp
    next
      case OtherError
      with Inl Cons.prems step show ?thesis by simp
    qed
  qed
qed

text \<open>
  Claim C6, as amended. When \<open>/synthesize\<close> answers, the engine has returned a query
  and the dictionary was loaded, and the count in the header \<open>X-Matches-Found\<close> is the
  number of matches that the matcher found for that query, the entries and the text; every
  one of them is counted, applied or skipped, so the number of matches applied is at most
  the count.
\<close>

theorem matches_found_header:
  assumes "synthesize_with_extended_dict client loaded text_in speaker = Inr response"
  shows "\<exists>q entries. client_create_audio_query client text_in speaker = Inr q \<and>
           loaded = Inr entries \<and>
           x_matches_found response = length (find_matches_with_text q entries text_in) \<and>
           matches_applied [q] 0 (find_matches_with_text q entries text_in)
             \<le> x_matches_found response"
proof -
  from assms obtain q where q: "client_create_audio_query client text_in speaker = Inr q"
    by (auto simp: synthesize_with_extended_dict_def split: sum.splits)
  from assms q obtain entries where entries: "loaded = Inr entries"
    by (auto simp: synthesize_with_extended_dict_def split: sum.splits)
  let ?matches = "find_matches_with_text q entries text_in"
  obtain h' res where loop: "apply_matches [q] 0 [] ?matches = (h', res)"
    by (cases "apply_matches [q] 0 [] ?matches")
  from assms q entries loop obtain modified applied where res: "res = Inr (modified, applied)"
    by (cases res) (auto simp: synthesize_with_extended_dict_def Let_def)
  from assms q entries loop res have found: "x_matches_found response = length ?matches"
    by (auto simp: synthesize_with_extended_dict_def Let_def split: sum.splits)
  from apply_matches_applied [OF loop [unfolded res]]
  have "length applied \<le> length ?matches" by simp
  with loop res have "matches_applied [q] 0 ?matches \<le> length ?matches"
    by (simp add: matches_applied_def)
  with q entries found show ?thesis by simp
qed

lemmas eval_orchestrator = synthesize_with_extended_dict_def matches_applied_def
  mock_client_def mock_audio_query_def zundamon_entry_def short_pitch_entry_def
  find_matches_with_text_def partial_phrase_matches_def entry_matches_def
  scan_phrase.simps str_find.simps str_contains_def join_def slice_def enumerate_eq_zip
  konnichiwa_def KONNICHIWA_def

theorem matches_found_header_witness:
  "x_matches_found \<lparr>content = [82, 73, 70, 70], x_matches_found = 1\<rparr> =
     length (find_matches_with_text mock_audio_query [zundamon_entry]
               (konnichiwa @ zundamon @ desu))
   \<and> matches_applied [mock_audio_query] 0
         (find_matches_with_text mock_audio_query [zundamon_entry]
            (konnichiwa @ zundamon @ desu)) = 1"
proof -
  have run: "synthesize_with_extended_dict mock_client (Inr [zundamon_entry])
               (konnichiwa @ zundamon @ desu) 1 =
             Inr \<lparr>content = [82, 73, 70, 70], x_matches_found = 1\<rparr>"
    by (simp add: eval_orchestrator eval_service)
  have applied: "matches_applied [mock_audio_query] 0
         (find_matches_with_text mock_audio_query [zundamon_entry]
            (konnichiwa @ zundamon @ desu)) = 1"
    by (simp add: eval_orchestrator eval_service)
  from matches_found_header [OF run] applied show ?thesis
    by (auto simp: mock_client_def)
qed

text \<open>
  Claim C6 as stated fails when an overlay is skipped: with the entry whose pitch list has
  one value for the five units of its match, the match is found, its overlay fails with
  the count mismatch and is skipped, no match is applied, and the header says 1.
\<close>

theorem skipped_match_counted_counterexample:
  "synthesize_with_extended_dict mock_client (Inr [short_pitch_entry])
     (konnichiwa @ zundamon @ desu) 1 =
     Inr \<lparr>content = [82, 73, 70, 70], x_matches_found = 1\<rparr>
   \<and> matches_applied [mock_audio_query] 0
         (find_matches_with_text mock_audio_query [short_pitch_entry]
            (konnichiwa @ zundamon @ desu)) = 0"
  by (simp add: eval_orchestrator eval_service)

lemma apply_dictionary_try_heap:
  "apply_dictionary_try loaded h a text_in = (h', res) \<Longrightarrow>
     length h \<le> length h' \<and> (\<forall>b < length h. h' ! b = h ! b)"
proof (cases loaded)
  case (Inl err)
  assume "apply_dictionary_try loaded h a text_in = (h', res)"
  with Inl show ?thesis by (simp add: apply_dictionary_try_def)
next
  case (Inr entries)
  assume run: "apply_dictionary_try loaded h a text_in = (h', res)"
  show ?thesis
  proof (cases "entries = []")
    case True
    with Inr run show ?thesis by (simp add: apply_dictionary_try_def)
  next
    case False
    let ?matches = "find_matches_with_text (h ! a) entries text_in"
    obtain h1 r where loop: "apply_matches h a [] ?matches = (h1, r)"
      by (cases "apply_matches h a [] ?matches")
    with Inr False run have "h' = h1"
      by (auto simp: apply_dictionary_try_def Let_def split: sum.splits)
    with apply_matches_heap [OF loop] show ?thesis by simp
  qed
qed

lemma apply_matches_with_real:
  "apply_matches_with apply_partial_match h q applied ms = apply_matches h q applied ms"
  by (induction ms arbitrary: h q applied)
     (simp_all split: prod.splits sum.splits exn.splits)

lemma apply_dictionary_with_real:
  "apply_dictionary_with (\<lambda>q es t. Inr (find_matches_with_text q es t)) apply_partial_match
     loaded h a text_in = apply_dictionary loaded h a text_in"
proof (cases loaded)
  case (Inl err)
  then show ?thesis
    by (simp add: apply_dictionary_with_def apply_dictionary_try_with_def apply_dictionary_def
        apply_dictionary_try_def)
next
  case (Inr entries)
  then show ?thesis
    by (cases "entries = []")
       (simp_all add: apply_dictionary_with_def apply_dictionary_try_with_def
          apply_dictionary_def apply_dictionary_try_def apply_matches_with_real Let_def)
qed

lemma apply_matches_with_heap:
  assumes frame: "\<And>h q e i s t. \<exists>xs. fst (overlay_call h q e i s t) = h @ xs"
  shows "\<exists>xs. fst (apply_matches_with overlay_call h q applied ms) = h @ xs"
proof (induction ms arbitrary: h q applied)
  case Nil
  show ?case by simp
next
  case (Cons m ms)
  let ?step = "overlay_call h q (entry_of m) (accent_phrase_index m)
                 (mora_start_index m) (mora_end_index m)"
  obtain h1 r where step: "?step = (h1, r)" by (cases ?step)
  from frame [of h q "entry_of m" "accent_phrase_index m" "mora_start_index m"
      "mora_end_index m"] step
  obtain xs where h1: "h1 = h @ xs" by auto
  show ?case
  proof (cases r)
    case (Inr q')
    from Cons.IH [of h1 q' "applied @ [word (entry_of m)]"] obtain ys where
      "fst (apply_matches_with overlay_call h1 q' (applied @ [word (entry_of m)]) ms) = h1 @ ys"
      by blast
    with step Inr h1 show ?thesis by simp
  next
    case (Inl err)
    show ?thesis
    proof (cases err)
      case (ValueError v)
      from Cons.IH [of h1 q applied] obtain ys where
        "fst (apply_matches_with overlay_call h1 q applied ms) = h1 @ ys" by blast
      with step Inl ValueError h1 show ?thesis by simp
    next
      case IndexError
      with step Inl h1 show ?thesis by simp
    next
      case OtherError
      with step Inl h1 show ?thesis by simp
    qed
  qed
qed

lemma apply_matches_with_append:
  "apply_matches_with overlay_call h q applied (ms1 @ ms2) =
     (case apply_matches_with overlay_call h q applied ms1 of
        (h1, Inr (q1, applied1)) \<Rightarrow> apply_matches_with overlay_call h1 q1 applied1 ms2
      | (h1, Inl err) \<Rightarrow> (h1, Inl err))"
  by (induction ms1 arbitrary: h q applied)
     (simp_all split: prod.splits sum.splits exn.splits)

lemma apply_matches_with_raise:
  assumes before: "apply_matches_with overlay_call h q applied ms1 = (h1, Inr (q1, applied1))"
    and raise: "overlay_call h1 q1 (entry_of m) (accent_phrase_index m)
                  (mora_start_index m) (mora_end_index m) = (h2, Inl err)"
    and other: "\<forall>v. err \<noteq> ValueError v"
  shows "apply_matches_with overlay_call h q applied (ms1 @ m # ms2) = (h2, Inl err)"
proof -
  from raise other have "apply_matches_with overlay_call h1 q1 applied1 (m # ms2) = (h2, Inl err)"
    by (cases err) simp_all
  with before show ?thesis by (simp add: apply_matches_with_append)
qed

lemma apply_dictionary_with_heap:
  assumes frame: "\<And>h q e i s t. \<exists>xs. fst (overlay_call h q e i s t) = h @ xs"
  shows "\<exists>xs. fst (apply_dictionary_with matcher_call overlay_call loaded h a text_in) = h @ xs"
proof -
  have loop: "\<exists>xs. fst (apply_matches_with overlay_call h a [] ms) = h @ xs" for ms
    by (rule apply_matches_with_heap [OF frame])
  show ?thesis
  proof (cases loaded)
    case (Inl err)
    then show ?thesis
      by (simp add: apply_dictionary_with_def apply_dictionary_try_with_def)
  next
    case (Inr entries)
    show ?thesis
    proof (cases "entries = []")
      case True
      with Inr show ?thesis
        by (simp add: apply_dictionary_with_def apply_dictionary_try_with_def)
    next
      case False
      show ?thesis
      proof (cases "matcher_call (h ! a) entries text_in")
        case (Inl err)
        with Inr False show ?thesis
          by (simp add: apply_dictionary_with_def apply_dictionary_try_with_def)
      next
        case matches: (Inr ms)
        from loop [of ms] obtain xs where
          "fst (apply_matches_with overlay_call h a [] ms) = h @ xs" by blast
        with Inr False matches show ?thesis
          by (auto simp: apply_dictionary_with_def apply_dictionary_try_with_def
              split: prod.splits sum.splits)
      qed
    qed
  qed
qed


lemma py_index_target:
  "- int n \<le> i \<Longrightarrow> i < int n \<Longrightarrow>
     py_index n i = Some (target_segment n i) \<and> target_segment n i < n"
  by (auto simp: py_index_def target_segment_def)

lemma overlay_match_set_moras:
  "set_moras q (target_segment (length (accent_phrases q)) (accent_phrase_index m))
     (overlay set_vowel_length (values_of (length_values (entry_of m)))
        (nat (mora_start_index m))
        (overlay set_pitch (values_of (pitch_values (entry_of m))) (nat (mora_start_index m))
           (moras (accent_phrases q !
              target_segment (length (accent_phrases q)) (accent_phrase_index m))))) =
   overlay_match q m"
proof -
  let ?k = "target_segment (length (accent_phrases q)) (accent_phrase_index m)"
  let ?s = "nat (mora_start_index m)"
  let ?ps = "values_of (pitch_values (entry_of m))"
  let ?ls = "values_of (length_values (entry_of m))"
  let ?ms = "moras (accent_phrases q ! ?k)"
  have "overlay set_vowel_length ?ls ?s (overlay set_pitch ?ps ?s ?ms) =
          map (\<lambda>(j, u).
                 u\<lparr>pitch := if ?s \<le> j \<and> j < ?s + length ?ps then ?ps ! (j - ?s)
                             else pitch u,
                   vowel_length := if ?s \<le> j \<and> j < ?s + length ?ls then ?ls ! (j - ?s)
                                    else vowel_length u\<rparr>)
              (enumerate 0 ?ms)"
  proof (rule nth_equalityI)
    show "length (overlay set_vowel_length ?ls ?s (overlay set_pitch ?ps ?s ?ms)) =
          length (map (\<lambda>(j, u).
                 u\<lparr>pitch := if ?s \<le> j \<and> j < ?s + length ?ps then ?ps ! (j - ?s)
                             else pitch u,
                   vowel_length := if ?s \<le> j \<and> j < ?s + length ?ls then ?ls ! (j - ?s)
                                    else vowel_length u\<rparr>)
              (enumerate 0 ?ms))" by simp
  next
    fix j assume "j < length (overlay set_vowel_length ?ls ?s (overlay set_pitch ?ps ?s ?ms))"
    then have j: "j < length ?ms" by simp
    then show "overlay set_vowel_length ?ls ?s (overlay set_pitch ?ps ?s ?ms) ! j =
          map (\<lambda>(j, u).
                 u\<lparr>pitch := if ?s \<le> j \<and> j < ?s + length ?ps then ?ps ! (j - ?s)
                             else pitch u,
                   vowel_length := if ?s \<le> j \<and> j < ?s + length ?ls then ?ls ! (j - ?s)
                                    else vowel_length u\<rparr>)
              (enumerate 0 ?ms) ! j"
      by (simp add: overlay_nth nth_enumerate_eq set_pitch_def set_vowel_length_def)
  qed
  then show ?thesis by (simp add: overlay_match_def set_moras_def Let_def)
qed

lemma apply_partial_match_applicable:
  assumes "applicable (h ! a) m"
  shows "apply_partial_match h a (entry_of m) (accent_phrase_index m) (mora_start_index m)
           (mora_end_index m) = (h @ [overlay_match (h ! a) m], Inr (length h))"
proof -
  let ?n = "length (accent_phrases (h ! a))"
  let ?k = "target_segment ?n (accent_phrase_index m)"
  from assms have lo: "- int ?n \<le> accent_phrase_index m" and hi: "accent_phrase_index m < int ?n"
    and s: "0 \<le> mora_start_index m"
    and t: "mora_end_index m \<le> int (length (moras (accent_phrases (h ! a) ! ?k)))"
    and fp: "fits (pitch_values (entry_of m)) m" and fl: "fits (length_values (entry_of m)) m"
    by (simp_all add: applicable_def)
  from py_index_target [OF lo hi] have k: "py_index ?n (accent_phrase_index m) = Some ?k"
    by simp
  from fp fl show ?thesis
    unfolding apply_partial_match_valid [OF k s t] overlay_match_set_moras
    by (auto simp: fits_def)
qed

lemma apply_partial_match_not_applicable:
  assumes no: "\<not> applicable (h ! a) m"
    and lo: "- int (length (accent_phrases (h ! a))) \<le> accent_phrase_index m"
  shows "\<exists>x v. apply_partial_match h a (entry_of m) (accent_phrase_index m) (mora_start_index m)
           (mora_end_index m) = (h @ [x], Inl (ValueError v))"
proof -
  let ?n = "length (accent_phrases (h ! a))"
  let ?k = "target_segment ?n (accent_phrase_index m)"
  show ?thesis
  proof (cases "int ?n \<le> accent_phrase_index m")
    case True
    then show ?thesis unfolding apply_partial_match_unfold Let_def by simp
  next
    case False
    then have hi: "accent_phrase_index m < int ?n" by simp
    from py_index_target [OF lo hi] have k: "py_index ?n (accent_phrase_index m) = Some ?k"
      by simp
    show ?thesis
    proof (cases "mora_start_index m < 0 \<or>
                  int (length (moras (accent_phrases (h ! a) ! ?k))) < mora_end_index m")
      case True
      with k show ?thesis unfolding apply_partial_match_unfold Let_def by (simp add: False)
    next
      case inside: False
      then have s: "0 \<le> mora_start_index m"
        and t: "mora_end_index m \<le> int (length (moras (accent_phrases (h ! a) ! ?k)))"
        by simp_all
      from no lo hi s t
      have "\<not> fits (pitch_values (entry_of m)) m \<or> \<not> fits (length_values (entry_of m)) m"
        by (simp add: applicable_def)
      then show ?thesis
        unfolding apply_partial_match_valid [OF k s t] by (auto simp: fits_def)
    qed
  qed
qed

lemma overlay_match_shape:
  "length (accent_phrases (overlay_match q m)) = length (accent_phrases q)"
  "length (moras (accent_phrases (overlay_match q m) ! i)) =
     length (moras (accent_phrases q ! i))"
proof -
  show "length (accent_phrases (overlay_match q m)) = length (accent_phrases q)"
    by (simp add: overlay_match_def Let_def)
  let ?k = "target_segment (length (accent_phrases q)) (accent_phrase_index m)"
  show "length (moras (accent_phrases (overlay_match q m) ! i)) =
          length (moras (accent_phrases q ! i))"
  proof (cases "?k < length (accent_phrases q)")
    case True
    then show ?thesis
      by (cases "i = ?k") (simp_all add: overlay_match_def Let_def nth_list_update)
  next
    case False
    then show ?thesis by (simp add: overlay_match_def Let_def list_update_beyond)
  qed
qed

lemma applicable_overlay_match: "applicable (overlay_match q m) = applicable q"
  by (rule ext) (simp add: applicable_def overlay_match_shape)

lemma apply_matches_fold:
  assumes "q < length h"
    and "\<forall>m \<in> set ms. - int (length (accent_phrases (h ! q))) \<le> accent_phrase_index m"
  shows "\<exists>h' q'. apply_matches h q applied ms =
                   (h', Inr (q', applied @ map (\<lambda>m. word (entry_of m))
                                            (filter (applicable (h ! q)) ms))) \<and>
                 q' < length h' \<and>
                 h' ! q' = foldl overlay_match (h ! q) (filter (applicable (h ! q)) ms)"
  using assms
proof (induction ms arbitrary: h q applied)
  case Nil
  then show ?case by simp
next
  case (Cons m ms)
  let ?step = "apply_partial_match h q (entry_of m) (accent_phrase_index m)
                 (mora_start_index m) (mora_end_index m)"
  from Cons.prems have lo: "- int (length (accent_phrases (h ! q))) \<le> accent_phrase_index m"
    and rest: "\<forall>m' \<in> set ms. - int (length (accent_phrases (h ! q))) \<le> accent_phrase_index m'"
    by simp_all
  show ?case
  proof (cases "applicable (h ! q) m")
    case True
    let ?h1 = "h @ [overlay_match (h ! q) m]"
    from apply_partial_match_applicable [OF True]
    have step: "?step = (?h1, Inr (length h))" .
    have q1: "length h < length ?h1" and obj: "?h1 ! length h = overlay_match (h ! q) m"
      by simp_all
    from rest have rest1: "\<forall>m' \<in> set ms. - int (length (accent_phrases (?h1 ! length h)))
                             \<le> accent_phrase_index m'"
      by (simp add: overlay_match_shape)
    from Cons.IH [OF q1 rest1, of "applied @ [word (entry_of m)]"] obtain h' q' where
      run: "apply_matches ?h1 (length h) (applied @ [word (entry_of m)]) ms =
              (h', Inr (q', (applied @ [word (entry_of m)]) @
                            map (\<lambda>m. word (entry_of m))
                                (filter (applicable (?h1 ! length h)) ms)))"
      and q': "q' < length h'"
      and res: "h' ! q' = foldl overlay_match (?h1 ! length h)
                            (filter (applicable (?h1 ! length h)) ms)"
      by blast
    have same: "filter (applicable (?h1 ! length h)) ms = filter (applicable (h ! q)) ms"
      by (simp add: applicable_overlay_match)
    from step run have "apply_matches h q applied (m # ms) =
        (h', Inr (q', applied @ map (\<lambda>m. word (entry_of m))
                                   (filter (applicable (h ! q)) (m # ms))))"
      using True by (simp add: applicable_overlay_match)
    moreover from res have "h' ! q' = foldl overlay_match (h ! q)
                                       (filter (applicable (h ! q)) (m # ms))"
      using True by (simp add: applicable_overlay_match)
    ultimately show ?thesis using q' by blast
  next
    case False
    from apply_partial_match_not_applicable [OF False lo] obtain x v where
      step: "?step = (h @ [x], Inl (ValueError v))" by blast
    let ?h1 = "h @ [x]"
    from Cons.prems(1) have q1: "q < length ?h1" and obj: "?h1 ! q = h ! q"
      by (simp_all add: nth_append)
    from rest obj have rest1: "\<forall>m' \<in> set ms. - int (length (accent_phrases (?h1 ! q)))
                             \<le> accent_phrase_index m'" by simp
    from Cons.IH [OF q1 rest1, of applied] obtain h' q' where
      run: "apply_matches ?h1 q applied ms =
              (h', Inr (q', applied @ map (\<lambda>m. word (entry_of m))
                                         (filter (applicable (?h1 ! q)) ms)))"
      and q': "q' < length h'"
      and res: "h' ! q' = foldl overlay_match (?h1 ! q) (filter (applicable (?h1 ! q)) ms)"
      by blast
    from step run have "apply_matches h q applied (m # ms) =
        (h', Inr (q', applied @ map (\<lambda>m. word (entry_of m))
                                   (filter (applicable (h ! q)) (m # ms))))"
      using False by (simp add: obj)
    moreover from res have "h' ! q' = foldl overlay_match (h ! q)
                                       (filter (applicable (h ! q)) (m # ms))"
      using False by (simp add: obj)
    ultimately show ?thesis using q' by blast
  qed
qed

lemma apply_dictionary_fold:
  assumes a: "a < length h" and entries: "entries \<noteq> []"
  shows "\<exists>h' q'. apply_dictionary (Inr entries) h a text_in =
           (h', \<lparr>response_audio_query = q',
                 matches_found = length (find_matches_with_text (h ! a) entries text_in),
                 applied_entries =
                   map (\<lambda>m. word (entry_of m))
                       (filter (applicable (h ! a))
                          (find_matches_with_text (h ! a) entries text_in))\<rparr>) \<and>
           q' < length h' \<and>
           h' ! q' = foldl overlay_match (h ! a)
                       (filter (applicable (h ! a))
                          (find_matches_with_text (h ! a) entries text_in))"
proof -
  let ?ms = "find_matches_with_text (h ! a) entries text_in"
  have "\<forall>m \<in> set ?ms. well_formed_match (h ! a) m"
    using find_matches_with_text_well_formed by blast
  then have "\<forall>m \<in> set ?ms. - int (length (accent_phrases (h ! a))) \<le> accent_phrase_index m"
    by (auto simp: well_formed_match_def)
  from apply_matches_fold [OF a this, of "[]"] obtain h' q' where
    run: "apply_matches h a [] ?ms =
            (h', Inr (q', map (\<lambda>m. word (entry_of m)) (filter (applicable (h ! a)) ?ms)))"
    and q': "q' < length h'"
    and res: "h' ! q' = foldl overlay_match (h ! a) (filter (applicable (h ! a)) ?ms)"
    by auto
  from run entries have "apply_dictionary (Inr entries) h a text_in =
           (h', \<lparr>response_audio_query = q', matches_found = length ?ms,
                 applied_entries = map (\<lambda>m. word (entry_of m))
                                       (filter (applicable (h ! a)) ?ms)\<rparr>)"
    by (simp add: apply_dictionary_def apply_dictionary_try_def Let_def)
  with q' res show ?thesis by blast
qed


lemma value_error_kinds: "RangeError (ValueError v) \<or> CountMismatch (ValueError v)"
  by (cases v) (simp_all add: RangeError_def CountMismatch_def)

text \<open>
  Claim C9. Whatever the two calls of the \<open>try\<close> block do, as long as the overlay call
  leaves the objects of the store as they are (\<open>apply_partial_match\<close> assigns into its own
  copy only): \<open>apply_dictionary\<close> answers with the address of the original query, the
  match count 0 and no applied entry when the loaded dictionary is empty, when loading
  raises, when the matcher call raises, and when, after any number of matches applied or
  skipped, an overlay call raises anything but a \<open>ValueError\<close>; in every case each
  object of the store, the original query among them, keeps its value. With the overlay
  of this repository on a query of the record shape, and a segment index that is not
  below minus the number of segments (below it the list access raises an \<open>IndexError\<close>,
  one of the failures above), an overlay raises a range error or a count mismatch exactly
  when the match is not applicable (its segment index at or above the number of segments,
  its unit range outside the segment, or a non-empty value list of another length than
  the range) and succeeds with the overlay of the match otherwise; the loop over such
  matches returns the words of the applicable matches in order and a query that is the
  original one with the applicable matches overlaid one after the other, each on the
  result of the one before, the matches that are not applicable left out. With the
  matcher of this repository and a dictionary that is not empty, \<open>apply_dictionary\<close>
  answers with that query, the number of matches found and these words.
\<close>

theorem apply_dictionary_fallback:
  assumes frame: "\<And>h q e i s t. \<exists>xs. fst (overlay_call h q e i s t) = h @ xs"
  shows "apply_dictionary_with matcher_call overlay_call (Inr []) h a text_in = (h, \<lparr>response_audio_query = a, matches_found = 0, applied_entries = []\<rparr>)
   \<and> apply_dictionary_with matcher_call overlay_call (Inl load_error) h a text_in = (h, \<lparr>response_audio_query = a, matches_found = 0, applied_entries = []\<rparr>)
   \<and> (entries \<noteq> [] \<and> matcher_call (h ! a) entries text_in = Inl matcher_error \<longrightarrow>
        apply_dictionary_with matcher_call overlay_call (Inr entries) h a text_in = (h, \<lparr>response_audio_query = a, matches_found = 0, applied_entries = []\<rparr>))
   \<and> (entries \<noteq> [] \<and> matcher_call (h ! a) entries text_in = Inr (ms1 @ m # ms2) \<and>
      apply_matches_with overlay_call h a [] ms1 = (h1, Inr (q1, applied1)) \<and>
      overlay_call h1 q1 (entry_of m) (accent_phrase_index m) (mora_start_index m)
        (mora_end_index m) = (h2, Inl overlay_error) \<and>
      (\<forall>v. overlay_error \<noteq> ValueError v) \<longrightarrow>
        apply_dictionary_with matcher_call overlay_call (Inr entries) h a text_in = (h2, \<lparr>response_audio_query = a, matches_found = 0, applied_entries = []\<rparr>))
   \<and> (\<forall>b < length h.
        fst (apply_dictionary_with matcher_call overlay_call loaded h a text_in) ! b = h ! b)
   \<and> apply_dictionary loaded h a text_in =
       apply_dictionary_with (\<lambda>q es t. Inr (find_matches_with_text q es t))
         apply_partial_match loaded h a text_in
   \<and> (- int (length (accent_phrases (h ! a))) \<le> accent_phrase_index m \<longrightarrow>
        (applicable (h ! a) m \<longrightarrow>
           apply_partial_match h a (entry_of m) (accent_phrase_index m) (mora_start_index m)
             (mora_end_index m) = (h @ [overlay_match (h ! a) m], Inr (length h)))
        \<and> (\<not> applicable (h ! a) m \<longrightarrow>
             (\<exists>x err. apply_partial_match h a (entry_of m) (accent_phrase_index m)
                        (mora_start_index m) (mora_end_index m) = (h @ [x], Inl err) \<and>
                      (RangeError err \<or> CountMismatch err))))
   \<and> (a < length h \<and>
      (\<forall>m \<in> set ms. - int (length (accent_phrases (h ! a))) \<le> accent_phrase_index m) \<longrightarrow>
        (\<exists>h' q'. apply_matches_with apply_partial_match h a applied ms =
                   (h', Inr (q', applied @ map (\<lambda>m. word (entry_of m))
                                            (filter (applicable (h ! a)) ms))) \<and>
                 q' < length h' \<and>
                 h' ! q' = foldl overlay_match (h ! a) (filter (applicable (h ! a)) ms)))
   \<and> (a < length h \<and> entries \<noteq> [] \<longrightarrow>
        (\<exists>h' q'. apply_dictionary (Inr entries) h a text_in =
           (h', \<lparr>response_audio_query = q',
                 matches_found = length (find_matches_with_text (h ! a) entries text_in),
                 applied_entries =
                   map (\<lambda>m. word (entry_of m))
                       (filter (applicable (h ! a))
                          (find_matches_with_text (h ! a) entries text_in))\<rparr>) \<and>
           q' < length h' \<and>
           h' ! q' = foldl overlay_match (h ! a)
                       (filter (applicable (h ! a))
                          (find_matches_with_text (h ! a) entries text_in))))"
proof (intro conjI)
  show "apply_dictionary_with matcher_call overlay_call (Inr []) h a text_in = (h, \<lparr>response_audio_query = a, matches_found = 0, applied_entries = []\<rparr>)"
    by (simp add: apply_dictionary_with_def apply_dictionary_try_with_def)
  show "apply_dictionary_with matcher_call overlay_call (Inl load_error) h a text_in = (h, \<lparr>response_audio_query = a, matches_found = 0, applied_entries = []\<rparr>)"
    by (simp add: apply_dictionary_with_def apply_dictionary_try_with_def)
  show "entries \<noteq> [] \<and> matcher_call (h ! a) entries text_in = Inl matcher_error \<longrightarrow>
        apply_dictionary_with matcher_call overlay_call (Inr entries) h a text_in = (h, \<lparr>response_audio_query = a, matches_found = 0, applied_entries = []\<rparr>)"
    by (simp add: apply_dictionary_with_def apply_dictionary_try_with_def)
  show "entries \<noteq> [] \<and> matcher_call (h ! a) entries text_in = Inr (ms1 @ m # ms2) \<and>
      apply_matches_with overlay_call h a [] ms1 = (h1, Inr (q1, applied1)) \<and>
      overlay_call h1 q1 (entry_of m) (accent_phrase_index m) (mora_start_index m)
        (mora_end_index m) = (h2, Inl overlay_error) \<and>
      (\<forall>v. overlay_error \<noteq> ValueError v) \<longrightarrow>
        apply_dictionary_with matcher_call overlay_call (Inr entries) h a text_in = (h2, \<lparr>response_audio_query = a, matches_found = 0, applied_entries = []\<rparr>)"
  proof
    assume hyp: "entries \<noteq> [] \<and> matcher_call (h ! a) entries text_in = Inr (ms1 @ m # ms2) \<and>
      apply_matches_with overlay_call h a [] ms1 = (h1, Inr (q1, applied1)) \<and>
      overlay_call h1 q1 (entry_of m) (accent_phrase_index m) (mora_start_index m)
        (mora_end_index m) = (h2, Inl overlay_error) \<and>
      (\<forall>v. overlay_error \<noteq> ValueError v)"
    then have before: "apply_matches_with overlay_call h a [] ms1 = (h1, Inr (q1, applied1))"
      and raise: "overlay_call h1 q1 (entry_of m) (accent_phrase_index m) (mora_start_index m)
                    (mora_end_index m) = (h2, Inl overlay_error)"
      and other: "\<forall>v. overlay_error \<noteq> ValueError v" by blast+
    have "apply_matches_with overlay_call h a [] (ms1 @ m # ms2) = (h2, Inl overlay_error)"
      by (rule apply_matches_with_raise [OF before raise other])
    with hyp show "apply_dictionary_with matcher_call overlay_call (Inr entries) h a text_in =
                     (h2, \<lparr>response_audio_query = a, matches_found = 0, applied_entries = []\<rparr>)"
      by (simp add: apply_dictionary_with_def apply_dictionary_try_with_def)
  qed
  show "\<forall>b < length h.
        fst (apply_dictionary_with matcher_call overlay_call loaded h a text_in) ! b = h ! b"
  proof (intro allI impI)
    fix b assume b: "b < length h"
    from apply_dictionary_with_heap [where overlay_call = overlay_call
        and matcher_call = matcher_call and loaded = loaded and h = h and a = a
        and text_in = text_in, OF frame]
    obtain xs where
      "fst (apply_dictionary_with matcher_call overlay_call loaded h a text_in) = h @ xs"
      by blast
    with b show "fst (apply_dictionary_with matcher_call overlay_call loaded h a text_in) ! b =
                   h ! b"
      by (simp add: nth_append)
  qed
  show "apply_dictionary loaded h a text_in =
       apply_dictionary_with (\<lambda>q es t. Inr (find_matches_with_text q es t))
         apply_partial_match loaded h a text_in"
    by (simp only: apply_dictionary_with_real)
  show "- int (length (accent_phrases (h ! a))) \<le> accent_phrase_index m \<longrightarrow>
        (applicable (h ! a) m \<longrightarrow>
           apply_partial_match h a (entry_of m) (accent_phrase_index m) (mora_start_index m)
             (mora_end_index m) = (h @ [overlay_match (h ! a) m], Inr (length h)))
        \<and> (\<not> applicable (h ! a) m \<longrightarrow>
             (\<exists>x err. apply_partial_match h a (entry_of m) (accent_phrase_index m)
                        (mora_start_index m) (mora_end_index m) = (h @ [x], Inl err) \<and>
                      (RangeError err \<or> CountMismatch err)))"
  proof (intro impI conjI)
    assume "applicable (h ! a) m"
    then show "apply_partial_match h a (entry_of m) (accent_phrase_index m)
                 (mora_start_index m) (mora_end_index m) =
               (h @ [overlay_match (h ! a) m], Inr (length h))"
      by (rule apply_partial_match_applicable)
  next
    assume lo: "- int (length (accent_phrases (h ! a))) \<le> accent_phrase_index m"
      and no: "\<not> applicable (h ! a) m"
    from apply_partial_match_not_applicable [OF no lo] obtain x v where
      "apply_partial_match h a (entry_of m) (accent_phrase_index m) (mora_start_index m)
         (mora_end_index m) = (h @ [x], Inl (ValueError v))" by blast
    with value_error_kinds [of v]
    show "\<exists>x err. apply_partial_match h a (entry_of m) (accent_phrase_index m)
                        (mora_start_index m) (mora_end_index m) = (h @ [x], Inl err) \<and>
                      (RangeError err \<or> CountMismatch err)" by blast
  qed
  show "a < length h \<and>
      (\<forall>m \<in> set ms. - int (length (accent_phrases (h ! a))) \<le> accent_phrase_index m) \<longrightarrow>
        (\<exists>h' q'. apply_matches_with apply_partial_match h a applied ms =
                   (h', Inr (q', applied @ map (\<lambda>m. word (entry_of m))
                                            (filter (applicable (h ! a)) ms))) \<and>
                 q' < length h' \<and>
                 h' ! q' = foldl overlay_match (h ! a) (filter (applicable (h ! a)) ms))"
    using apply_matches_fold [of a h ms applied]
    by (simp only: apply_matches_with_real) blast
  show "a < length h \<and> entries \<noteq> [] \<longrightarrow>
        (\<exists>h' q'. apply_dictionary (Inr entries) h a text_in =
           (h', \<lparr>response_audio_query = q',
                 matches_found = length (find_matches_with_text (h ! a) entries text_in),
                 applied_entries =
                   map (\<lambda>m. word (entry_of m))
                       (filter (applicable (h ! a))
                          (find_matches_with_text (h ! a) entries text_in))\<rparr>) \<and>
           q' < length h' \<and>
           h' ! q' = foldl overlay_match (h ! a)
                       (filter (applicable (h ! a))
                          (find_matches_with_text (h ! a) entries text_in)))"
    using apply_dictionary_fold [of a h entries text_in] by blast
qed

theorem apply_dictionary_fallback_witness:
  "apply_dictionary (Inr []) [mock_audio_query] 0 (konnichiwa @ zundamon @ desu) =
     ([mock_audio_query], \<lparr>response_audio_query = 0, matches_found = 0, applied_entries = []\<rparr>)
   \<and> apply_dictionary (Inl OtherError) [mock_audio_query] 0 (konnichiwa @ zundamon @ desu) =
     ([mock_audio_query], \<lparr>response_audio_query = 0, matches_found = 0, applied_entries = []\<rparr>)
   \<and> apply_dictionary_with (\<lambda>q es t. Inl OtherError) apply_partial_match
         (Inr [zundamon_entry]) [mock_audio_query] 0 (konnichiwa @ zundamon @ desu) =
     ([mock_audio_query], \<lparr>response_audio_query = 0, matches_found = 0, applied_entries = []\<rparr>)
   \<and> snd (apply_dictionary_with
            (\<lambda>q es t. Inr [MatchResult zundamon_entry 1 0 5, MatchResult zundamon_entry (- 5) 0 5])
            apply_partial_match (Inr [zundamon_entry]) [mock_audio_query] 0
            (konnichiwa @ zundamon @ desu)) =
       \<lparr>response_audio_query = 0, matches_found = 0, applied_entries = []\<rparr>
   \<and> fst (apply_dictionary_with
            (\<lambda>q es t. Inr [MatchResult zundamon_entry 1 0 5, MatchResult zundamon_entry (- 5) 0 5])
            apply_partial_match (Inr [zundamon_entry]) [mock_audio_query] 0
            (konnichiwa @ zundamon @ desu)) ! 0 = mock_audio_query
   \<and> map_sum id snd
         (snd (apply_matches_with apply_partial_match [mock_audio_query] 0 []
                 [MatchResult zundamon_entry 7 0 5, MatchResult zundamon_entry 1 0 9,
                  MatchResult short_pitch_entry 1 0 5, MatchResult zundamon_entry 1 0 5])) =
       Inr [zundamon]
   \<and> matches_found (snd (apply_dictionary (Inr [short_pitch_entry, zundamon_entry])
                            [mock_audio_query] 0 (konnichiwa @ zundamon @ desu))) = 2
   \<and> applied_entries (snd (apply_dictionary (Inr [short_pitch_entry, zundamon_entry])
                              [mock_audio_query] 0 (konnichiwa @ zundamon @ desu))) = [zundamon]
   \<and> map pitch (moras (accent_phrases
         (fst (apply_dictionary (Inr [short_pitch_entry, zundamon_entry])
                 [mock_audio_query] 0 (konnichiwa @ zundamon @ desu)) !
          response_audio_query
            (snd (apply_dictionary (Inr [short_pitch_entry, zundamon_entry])
                    [mock_audio_query] 0 (konnichiwa @ zundamon @ desu)))) ! 1)) =
       [6, 61 / 10, 62 / 10, 63 / 10, 64 / 10]
   \<and> map vowel_length (moras (accent_phrases
         (fst (apply_dictionary (Inr [short_pitch_entry, zundamon_entry])
                 [mock_audio_query] 0 (konnichiwa @ zundamon @ desu)) !
          response_audio_query
            (snd (apply_dictionary (Inr [short_pitch_entry, zundamon_entry])
                    [mock_audio_query] 0 (konnichiwa @ zundamon @ desu)))) ! 1)) =
       [15 / 100, 10 / 100, 15 / 100, 15 / 100, 12 / 100]"
proof -
  let ?t = "konnichiwa @ zundamon @ desu"
  let ?h = "[mock_audio_query]"
  let ?real = "\<lambda>q es t. Inr (find_matches_with_text q es t) :: exn + match_result list"
  have frame: "\<And>h q e i s t. \<exists>xs. fst (apply_partial_match h q e i s t) = h @ xs"
    using apply_partial_match_heap by blast
  note fallback = apply_dictionary_fallback [where overlay_call = apply_partial_match, OF frame]
  from fallback [where matcher_call = ?real and h = ?h and a = 0 and text_in = ?t
      and loaded = "Inr []"]
  have one: "apply_dictionary (Inr []) ?h 0 ?t =
     (?h, \<lparr>response_audio_query = 0, matches_found = 0, applied_entries = []\<rparr>)"
    by simp
  from fallback [where matcher_call = ?real and h = ?h and a = 0 and text_in = ?t
      and loaded = "Inl OtherError" and load_error = OtherError]
  have two: "apply_dictionary (Inl OtherError) ?h 0 ?t =
     (?h, \<lparr>response_audio_query = 0, matches_found = 0, applied_entries = []\<rparr>)"
    by simp
  let ?raising = "\<lambda>(q :: audio_query) (es :: entry list) (t :: pystr).
                    Inl OtherError :: exn + match_result list"
  have raised: "[zundamon_entry] \<noteq> [] \<and> ?raising (?h ! 0) [zundamon_entry] ?t = Inl OtherError"
    by simp
  from fallback [where matcher_call = ?raising and h = ?h and a = 0 and text_in = ?t
      and entries = "[zundamon_entry]" and matcher_error = OtherError] raised
  have three: "apply_dictionary_with ?raising apply_partial_match (Inr [zundamon_entry]) ?h 0 ?t =
     (?h, \<lparr>response_audio_query = 0, matches_found = 0, applied_entries = []\<rparr>)"
    by blast
  let ?m1 = "MatchResult zundamon_entry 1 0 5"
  let ?bad = "MatchResult zundamon_entry (- 5) 0 5"
  let ?given = "\<lambda>(q :: audio_query) (es :: entry list) (t :: pystr).
                  Inr [?m1, ?bad] :: exn + match_result list"
  let ?x = "overlay_match mock_audio_query ?m1"
  let ?h1 = "[mock_audio_query, ?x]"
  let ?h2 = "[mock_audio_query, ?x, ?x]"
  have first_applies: "applicable mock_audio_query ?m1"
    by (simp add: applicable_def fits_def values_of_def target_segment_def
        mock_audio_query_def zundamon_entry_def
        create_audio_query_def create_accent_phrase_def create_mora_def create_entry_def
        units_def ZUNDAMON_def KONNICHIWA_def DESU_def)
  have before: "apply_matches_with apply_partial_match ?h 0 [] [?m1] = (?h1, Inr (1, [zundamon]))"
    using apply_partial_match_applicable [of ?h 0 ?m1] first_applies
    by (simp add: zundamon_entry_def create_entry_def)
  have segments: "length (accent_phrases ?x) = 3"
    by (simp add: overlay_match_shape mock_audio_query_def create_audio_query_def)
  have raise: "apply_partial_match ?h1 1 (entry_of ?bad) (accent_phrase_index ?bad)
                 (mora_start_index ?bad) (mora_end_index ?bad) = (?h2, Inl IndexError)"
    unfolding apply_partial_match_unfold by (simp add: Let_def segments py_index_def)
  have hyp: "[zundamon_entry] \<noteq> [] \<and> ?given (?h ! 0) [zundamon_entry] ?t = Inr ([?m1] @ ?bad # []) \<and>
      apply_matches_with apply_partial_match ?h 0 [] [?m1] = (?h1, Inr (1, [zundamon])) \<and>
      apply_partial_match ?h1 1 (entry_of ?bad) (accent_phrase_index ?bad)
        (mora_start_index ?bad) (mora_end_index ?bad) = (?h2, Inl IndexError) \<and>
      (\<forall>v. IndexError \<noteq> ValueError v)"
    using before raise by simp
  from fallback [where matcher_call = ?given and h = ?h and a = 0 and text_in = ?t
      and entries = "[zundamon_entry]" and ?ms1.0 = "[?m1]" and m = ?bad and ?ms2.0 = "[]"
      and ?h1.0 = ?h1 and ?q1.0 = 1 and ?applied1.0 = "[zundamon]" and ?h2.0 = ?h2
      and overlay_error = IndexError and loaded = "Inr [zundamon_entry]"] hyp
  have run4: "apply_dictionary_with ?given apply_partial_match (Inr [zundamon_entry]) ?h 0 ?t =
       (?h2, \<lparr>response_audio_query = 0, matches_found = 0, applied_entries = []\<rparr>)"
    by blast
  then have four: "snd (apply_dictionary_with ?given apply_partial_match (Inr [zundamon_entry])
                          ?h 0 ?t) =
       \<lparr>response_audio_query = 0, matches_found = 0, applied_entries = []\<rparr>"
    and five: "fst (apply_dictionary_with ?given apply_partial_match (Inr [zundamon_entry])
                      ?h 0 ?t) ! 0 = mock_audio_query"
    by simp_all
  let ?ms = "[MatchResult zundamon_entry 7 0 5, MatchResult zundamon_entry 1 0 9,
              MatchResult short_pitch_entry 1 0 5, MatchResult zundamon_entry 1 0 5]"
  have skipped: "filter (applicable (?h ! 0)) ?ms = [MatchResult zundamon_entry 1 0 5]"
    by (simp add: applicable_def fits_def values_of_def target_segment_def
        mock_audio_query_def short_pitch_entry_def zundamon_entry_def
        create_audio_query_def create_accent_phrase_def create_mora_def create_entry_def
        units_def ZUNDAMON_def KONNICHIWA_def DESU_def)
  have indices: "0 < length ?h \<and>
      (\<forall>m \<in> set ?ms. - int (length (accent_phrases (?h ! 0))) \<le> accent_phrase_index m)"
    by (simp add: mock_audio_query_def create_audio_query_def)
  note loop = fallback [where matcher_call = ?real and h = ?h and a = 0 and ms = ?ms
      and applied = "[]", THEN conjunct2, THEN conjunct2, THEN conjunct2, THEN conjunct2,
      THEN conjunct2, THEN conjunct2, THEN conjunct2, THEN conjunct1]
  from loop indices obtain h'' q'' where
    "apply_matches_with apply_partial_match ?h 0 [] ?ms =
       (h'', Inr (q'', [] @ map (\<lambda>m. word (entry_of m)) (filter (applicable (?h ! 0)) ?ms)))"
    by blast
  then have ten: "map_sum id snd (snd (apply_matches_with apply_partial_match ?h 0 [] ?ms)) =
                    Inr [zundamon]"
    unfolding skipped by (simp add: zundamon_entry_def create_entry_def)
  let ?entries = "[short_pitch_entry, zundamon_entry]"
  have found: "find_matches_with_text (?h ! 0) ?entries ?t =
                 [MatchResult short_pitch_entry 1 0 5, MatchResult zundamon_entry 1 0 5]"
    by (simp add: eval_orchestrator Let_def create_audio_query_def create_accent_phrase_def
        create_mora_def create_entry_def units_def ZUNDAMON_def zundamon_def DESU_def desu_def)
  have kept: "filter (applicable (?h ! 0))
                [MatchResult short_pitch_entry 1 0 5, MatchResult zundamon_entry 1 0 5] =
              [MatchResult zundamon_entry 1 0 5]"
    by (simp add: applicable_def fits_def values_of_def target_segment_def
        mock_audio_query_def short_pitch_entry_def zundamon_entry_def
        create_audio_query_def create_accent_phrase_def create_mora_def create_entry_def
        units_def ZUNDAMON_def KONNICHIWA_def DESU_def)
  note answer = fallback [where matcher_call = ?real and h = ?h and a = 0 and text_in = ?t
      and entries = ?entries, THEN conjunct2, THEN conjunct2, THEN conjunct2, THEN conjunct2,
      THEN conjunct2, THEN conjunct2, THEN conjunct2, THEN conjunct2]
  have "0 < length ?h \<and> ?entries \<noteq> []" by simp
  with answer obtain h' q' where
    run: "apply_dictionary (Inr ?entries) ?h 0 ?t =
            (h', \<lparr>response_audio_query = q',
                  matches_found = length (find_matches_with_text (?h ! 0) ?entries ?t),
                  applied_entries = map (\<lambda>m. word (entry_of m))
                     (filter (applicable (?h ! 0))
                        (find_matches_with_text (?h ! 0) ?entries ?t))\<rparr>)"
    and obj: "h' ! q' = foldl overlay_match (?h ! 0)
                          (filter (applicable (?h ! 0))
                             (find_matches_with_text (?h ! 0) ?entries ?t))"
    by blast
  have run': "apply_dictionary (Inr ?entries) ?h 0 ?t =
                (h', \<lparr>response_audio_query = q', matches_found = 2,
                      applied_entries = [zundamon]\<rparr>)"
    using run unfolding found kept by (simp add: zundamon_entry_def create_entry_def)
  have obj': "h' ! q' = overlay_match mock_audio_query (MatchResult zundamon_entry 1 0 5)"
    using obj unfolding found kept by simp
  from run' have six: "matches_found (snd (apply_dictionary (Inr ?entries) ?h 0 ?t)) = 2"
    and seven: "applied_entries (snd (apply_dictionary (Inr ?entries) ?h 0 ?t)) = [zundamon]"
    by simp_all
  from run' obj' have result: "fst (apply_dictionary (Inr ?entries) ?h 0 ?t) !
          response_audio_query (snd (apply_dictionary (Inr ?entries) ?h 0 ?t)) =
        overlay_match mock_audio_query (MatchResult zundamon_entry 1 0 5)"
    by simp
  have eight: "map pitch (moras (accent_phrases
                  (overlay_match mock_audio_query (MatchResult zundamon_entry 1 0 5)) ! 1)) =
               [6, 61 / 10, 62 / 10, 63 / 10, 64 / 10]"
    and nine: "map vowel_length (moras (accent_phrases
                  (overlay_match mock_audio_query (MatchResult zundamon_entry 1 0 5)) ! 1)) =
               [15 / 100, 10 / 100, 15 / 100, 15 / 100, 12 / 100]"
    by (simp_all add: overlay_match_def Let_def values_of_def target_segment_def
        mock_audio_query_def zundamon_entry_def enumerate_eq_zip
        create_audio_query_def create_accent_phrase_def create_mora_def create_entry_def
        units_def ZUNDAMON_def KONNICHIWA_def DESU_def)
  from one two three four five six seven eight nine ten show ?thesis
    by (simp only: result)
qed

section \<open>The loop on the results of the matcher\<close>

text \<open>
  An overlay keeps the unit texts, so the matches stay well-formed for the query as the
  loop modifies it: on the matches of the matcher the loop raises nothing but the count
  mismatches it skips, \<open>apply_dictionary\<close> with a non-empty dictionary answers with the
  result of the loop, and \<open>/synthesize\<close> answers whenever the engine does.
\<close>

lemma well_formed_match_texts:
  assumes "unit_texts q' = unit_texts q"
  shows "well_formed_match q' m = well_formed_match q m"
proof -
  from assms have len: "length (accent_phrases q') = length (accent_phrases q)"
    by (auto simp: unit_texts_def dest: map_eq_imp_length_eq)
  have seg: "map mora_text (moras (accent_phrases q' ! i)) =
             map mora_text (moras (accent_phrases q ! i))"
    if "i < length (accent_phrases q)" for i
  proof -
    from assms have "unit_texts q' ! i = unit_texts q ! i" by simp
    with that len show ?thesis by (simp add: unit_texts_def)
  qed
  have slice_map: "concat (map mora_text (slice ms a b)) = concat (slice (map mora_text ms) a b)"
    for ms :: "mora list" and a b
    by (simp add: slice_def take_map drop_map)
  show ?thesis
  proof (cases "0 \<le> accent_phrase_index m \<and>
                accent_phrase_index m < int (length (accent_phrases q))")
    case True
    then have i: "nat (accent_phrase_index m) < length (accent_phrases q)" by linarith
    from seg [OF i] have "length (moras (accent_phrases q' ! nat (accent_phrase_index m))) =
                          length (moras (accent_phrases q ! nat (accent_phrase_index m)))"
      by (rule map_eq_imp_length_eq)
    with seg [OF i] len show ?thesis
      by (simp add: well_formed_match_def slice_map)
  next
    case False
    with len show ?thesis by (auto simp: well_formed_match_def)
  qed
qed

lemma overlay_texts:
  "(\<And>v m. mora_text (upd v m) = mora_text m) \<Longrightarrow>
     map mora_text (overlay upd vs j0 ms) = map mora_text ms"
  by (rule nth_equalityI) (simp_all add: overlay_nth)

lemma unit_texts_set_moras:
  assumes "map mora_text ms = map mora_text (moras (accent_phrases q ! k))"
  shows "unit_texts (set_moras q k ms) = unit_texts q"
proof (cases "k < length (accent_phrases q)")
  case True
  show ?thesis
    unfolding unit_texts_def
  proof (rule nth_equalityI)
    show "length (map (\<lambda>ap. map mora_text (moras ap)) (accent_phrases (set_moras q k ms))) =
          length (map (\<lambda>ap. map mora_text (moras ap)) (accent_phrases q))" by simp
  next
    fix i assume "i < length (map (\<lambda>ap. map mora_text (moras ap))
                                 (accent_phrases (set_moras q k ms)))"
    then have i: "i < length (accent_phrases q)" by simp
    with assms show "map (\<lambda>ap. map mora_text (moras ap)) (accent_phrases (set_moras q k ms)) ! i =
                     map (\<lambda>ap. map mora_text (moras ap)) (accent_phrases q) ! i"
      by (cases "i = k") (simp_all add: set_moras_def nth_list_update)
  qed
next
  case False
  then show ?thesis by (simp add: unit_texts_def set_moras_def list_update_beyond)
qed

lemma apply_partial_match_texts:
  assumes "apply_partial_match h a e api s t = (h', Inr r)"
  shows "r = length h \<and> length h' = Suc (length h) \<and> unit_texts (h' ! r) = unit_texts (h ! a)
         \<and> (\<forall>b < length h. h' ! b = h ! b)"
proof -
  from apply_partial_match_success [OF assms] obtain k where
    r: "r = length h" and
    h': "h' = h @ [set_moras (h ! a) k
                   (overlay set_vowel_length (values_of (length_values e)) (nat s)
                      (overlay set_pitch (values_of (pitch_values e)) (nat s)
                         (moras (accent_phrases (h ! a) ! k))))]"
    by blast
  have "map mora_text (overlay set_vowel_length (values_of (length_values e)) (nat s)
                      (overlay set_pitch (values_of (pitch_values e)) (nat s)
                         (moras (accent_phrases (h ! a) ! k)))) =
        map mora_text (moras (accent_phrases (h ! a) ! k))"
    by (simp add: overlay_texts set_pitch_def set_vowel_length_def)
  from unit_texts_set_moras [OF this] r h' show ?thesis by (simp add: nth_append)
qed

lemma apply_matches_total:
  assumes "q < length h" and "\<forall>m \<in> set ms. well_formed_match (h ! q) m"
  shows "\<exists>h' q' applied'. apply_matches h q applied ms = (h', Inr (q', applied')) \<and>
           q' < length h' \<and> unit_texts (h' ! q') = unit_texts (h ! q)"
  using assms
proof (induction ms arbitrary: h q applied)
  case Nil
  then show ?case by simp
next
  case (Cons m ms)
  let ?step = "apply_partial_match h q (entry_of m) (accent_phrase_index m)
                 (mora_start_index m) (mora_end_index m)"
  obtain h1 r where step: "?step = (h1, r)" by (cases ?step)
  obtain x where "fst ?step = h @ [x]" using apply_partial_match_heap by blast
  with step have h1: "h1 = h @ [x]" by simp
  from Cons.prems have wf: "well_formed_match (h ! q) m"
    and rest: "\<forall>m' \<in> set ms. well_formed_match (h ! q) m'" by simp_all
  show ?case
  proof (cases r)
    case (Inr q1)
    from apply_partial_match_texts [OF step [unfolded Inr]]
    have q1: "q1 = length h" "length h1 = Suc (length h)"
      and texts: "unit_texts (h1 ! q1) = unit_texts (h ! q)" by blast+
    from q1 have in1: "q1 < length h1" by simp
    from rest have wf1: "\<forall>m' \<in> set ms. well_formed_match (h1 ! q1) m'"
      by (simp only: well_formed_match_texts [OF texts])
    from Cons.IH [OF in1 wf1, of "applied @ [word (entry_of m)]"] obtain h' q' applied' where
      run: "apply_matches h1 q1 (applied @ [word (entry_of m)]) ms = (h', Inr (q', applied'))"
      and q': "q' < length h'" "unit_texts (h' ! q') = unit_texts (h1 ! q1)"
      by blast
    from step Inr run have "apply_matches h q applied (m # ms) = (h', Inr (q', applied'))"
      by simp
    with q' texts show ?thesis by simp
  next
    case (Inl err)
    with step have "snd ?step = Inl err" by simp
    from well_formed_no_range_error [OF wf this]
    have err: "err = ValueError Mora_count_mismatch" by (simp add: CountMismatch_def)
    from Cons.prems(1) have in1: "q < length h1" and same: "h1 ! q = h ! q"
      by (simp_all add: h1 nth_append)
    from rest same have wf1: "\<forall>m' \<in> set ms. well_formed_match (h1 ! q) m'" by simp
    from Cons.IH [OF in1 wf1, of applied] obtain h' q' applied' where
      run: "apply_matches h1 q applied ms = (h', Inr (q', applied'))"
      and q': "q' < length h'" "unit_texts (h' ! q') = unit_texts (h1 ! q)"
      by blast
    from step Inl err run have "apply_matches h q applied (m # ms) = (h', Inr (q', applied'))"
      by simp
    with q' same show ?thesis by simp
  qed
qed

lemma apply_dictionary_overlay:
  assumes "a < length h" and "entries \<noteq> []"
  shows "\<exists>h' modified applied.
           apply_matches h a [] (find_matches_with_text (h ! a) entries text_in) =
             (h', Inr (modified, applied)) \<and>
           apply_dictionary (Inr entries) h a text_in =
             (h', \<lparr>response_audio_query = modified,
                   matches_found = length (find_matches_with_text (h ! a) entries text_in),
                   applied_entries = applied\<rparr>)"
proof -
  let ?matches = "find_matches_with_text (h ! a) entries text_in"
  have "\<forall>m \<in> set ?matches. well_formed_match (h ! a) m"
    using find_matches_with_text_well_formed by blast
  from apply_matches_total [OF assms(1) this, of "[]"] obtain h' modified applied where
    "apply_matches h a [] ?matches = (h', Inr (modified, applied))" by blast
  with assms(2) show ?thesis
    by (simp add: apply_dictionary_def apply_dictionary_try_def Let_def)
qed

lemma synthesize_answers:
  assumes "client_create_audio_query client text_in speaker = Inr q"
    and "\<And>q'. \<exists>audio. client_synthesis client q' speaker = Inr audio"
  shows "\<exists>audio. synthesize_with_extended_dict client (Inr entries) text_in speaker =
           Inr \<lparr>content = audio,
                x_matches_found = length (find_matches_with_text q entries text_in)\<rparr>"
proof -
  let ?matches = "find_matches_with_text q entries text_in"
  have "\<forall>m \<in> set ?matches. well_formed_match ([q] ! 0) m"
    using find_matches_with_text_well_formed by simp
  from apply_matches_total [OF _ this, of "[]"] obtain h' modified applied where
    loop: "apply_matches [q] 0 [] ?matches = (h', Inr (modified, applied))" by auto
  from assms(2) obtain audio where "client_synthesis client (h' ! modified) speaker = Inr audio"
    by blast
  with assms(1) loop show ?thesis
    by (simp add: synthesize_with_extended_dict_def Let_def)
qed

end
